theory Spec2Isabelle
  imports
    Main
    "HOL-Library.AList"
    "HOL-Library.Char_ord"
    "HOL-Library.List_Lexorder"
    "HOL-Library.Product_Lexorder"
begin

section \<open>The constraint solver of solver.py\<close>

text \<open>
  A state is a Python dict from variables to strings of candidate characters. Python
  dicts keep their keys in insertion order and \<open>state.keys()\<close> is iterated by the
  solver, so a state is an association list: \<open>map_of\<close> reads a key,
  \<open>AList.update\<close> writes one (an existing key keeps its place, a new key goes to
  the end, as in Python). Variables are strings in the source; the model only needs them
  to be ordered, since \<open>__search\<close> compares them inside tuples.
\<close>

datatype error = KeyError | ValueError

type_synonym 'v state = "('v \<times> string) list"

text \<open>\<open>d[k]\<close>: raises KeyError for a missing key.\<close>

definition getitem :: "('k \<times> 'a) list \<Rightarrow> 'k \<Rightarrow> error + 'a" where
  "getitem d k = (case map_of d k of None \<Rightarrow> Inl KeyError | Some v \<Rightarrow> Inr v)"

definition keys :: "('k \<times> 'a) list \<Rightarrow> 'k list" where
  "keys d = map fst d"

text \<open>
  \<open>s.replace(old, '')\<close>: the non-overlapping occurrences of \<open>old\<close> are removed from
  left to right; with an empty \<open>old\<close> the string is returned as it is.
\<close>

function replace_by_empty :: "string \<Rightarrow> string \<Rightarrow> string" where
  "replace_by_empty old s =
     (if old = [] \<or> s = [] then s
      else if take (length old) s = old then replace_by_empty old (drop (length old) s)
      else hd s # replace_by_empty old (tl s))"
  by pat_completeness auto
termination
  by (relation "measure (\<lambda>(old, s). length s)") (auto simp: neq_Nil_conv)

declare replace_by_empty.simps [simp del]

text \<open>The solver object. The reduction functions are bound methods in the source; here
  they are named, and \<open>apply_rule\<close> below calls the method a name stands for.\<close>

datatype rule = Eliminate | OnlyChoice | NakedTwins

record 'v solver =
  internal_state :: "'v state"
  X_vars :: "'v list"
  D_vals :: string
  C_units :: "'v list list"
  peers :: "('v \<times> 'v list) list"
  solved :: bool
  reduce_funcs :: "rule list"
  reduce_count :: nat
  search_count :: nat

text \<open>\<open>ConstraintSolver.__init__\<close>: stores its arguments; no check, no raise.\<close>

definition ConstraintSolver_init ::
  "'v state \<Rightarrow> 'v list \<Rightarrow> string \<Rightarrow> 'v list list \<Rightarrow> ('v \<times> 'v list) list \<Rightarrow> error + 'v solver" where
  "ConstraintSolver_init state X D C prs =
     Inr \<lparr> internal_state = state, X_vars = X, D_vals = D, C_units = C, peers = prs,
           solved = False, reduce_funcs = [Eliminate, OnlyChoice],
           reduce_count = 0, search_count = 0 \<rparr>"

definition solved_units :: "'v state \<Rightarrow> 'v list" where
  "solved_units state =
     filter (\<lambda>item. case map_of state item of Some v \<Rightarrow> length v = 1 | None \<Rightarrow> False) (keys state)"

definition solved_units_count :: "'v state \<Rightarrow> nat" where
  "solved_units_count state = length (solved_units state)"

definition unsolvable_units :: "'v state \<Rightarrow> bool" where
  "unsolvable_units state =
     (length (filter (\<lambda>item. case map_of state item of Some v \<Rightarrow> length v = 0 | None \<Rightarrow> False)
        (keys state)) > 0)"

definition assign_value :: "'v state \<Rightarrow> 'v \<Rightarrow> string \<Rightarrow> error + 'v state" where
  "assign_value state item new_val =
     (case getitem state item of
        Inl e \<Rightarrow> Inl e
      | Inr v \<Rightarrow> Inr (if v \<noteq> new_val then AList.update item new_val state else state))"

subsection \<open>Elimination\<close>

text \<open>The inner loop of \<open>__eliminate\<close> over the peers of one solved item.\<close>

fun eliminate_peers :: "string \<Rightarrow> 'v list \<Rightarrow> 'v state \<Rightarrow> error + 'v state" where
  "eliminate_peers val [] state = Inr state"
| "eliminate_peers val (peer # ps) state =
     (case getitem state peer of
        Inl e \<Rightarrow> Inl e
      | Inr pv \<Rightarrow>
          (case assign_value state peer (replace_by_empty val pv) of
             Inl e \<Rightarrow> Inl e
           | Inr state' \<Rightarrow> eliminate_peers val ps state'))"

text \<open>The outer loop: \<open>val\<close> is read when the item's turn comes, not when the list of
  solved items was made.\<close>

fun eliminate_items :: "('v \<times> 'v list) list \<Rightarrow> 'v list \<Rightarrow> 'v state \<Rightarrow> error + 'v state" where
  "eliminate_items prs [] state = Inr state"
| "eliminate_items prs (item # items) state =
     (case getitem state item of
        Inl e \<Rightarrow> Inl e
      | Inr val \<Rightarrow>
          (case getitem prs item of
             Inl e \<Rightarrow> Inl e
           | Inr ps \<Rightarrow>
               (case eliminate_peers val ps state of
                  Inl e \<Rightarrow> Inl e
                | Inr state' \<Rightarrow> eliminate_items prs items state')))"

definition eliminate :: "('v, 'a) solver_scheme \<Rightarrow> 'v state \<Rightarrow> error + 'v state" where
  "eliminate slv state = eliminate_items (peers slv) (solved_units state) state"

subsection \<open>Only choice\<close>

fun dplaces :: "'v state \<Rightarrow> char \<Rightarrow> 'v list \<Rightarrow> error + 'v list" where
  "dplaces state unit_val [] = Inr []"
| "dplaces state unit_val (item # items) =
     (case getitem state item of
        Inl e \<Rightarrow> Inl e
      | Inr v \<Rightarrow>
          (case dplaces state unit_val items of
             Inl e \<Rightarrow> Inl e
           | Inr ds \<Rightarrow> Inr (if unit_val \<in> set v then item # ds else ds)))"

fun only_choice_vals :: "'v list \<Rightarrow> string \<Rightarrow> 'v state \<Rightarrow> error + 'v state" where
  "only_choice_vals unit [] state = Inr state"
| "only_choice_vals unit (unit_val # vals) state =
     (case dplaces state unit_val unit of
        Inl e \<Rightarrow> Inl e
      | Inr ds \<Rightarrow>
          (if length ds = 1 then
             (case assign_value state (hd ds) [unit_val] of
                Inl e \<Rightarrow> Inl e
              | Inr state' \<Rightarrow> only_choice_vals unit vals state')
           else only_choice_vals unit vals state))"

fun only_choice_units :: "'v list list \<Rightarrow> string \<Rightarrow> 'v state \<Rightarrow> error + 'v state" where
  "only_choice_units [] D state = Inr state"
| "only_choice_units (unit # units) D state =
     (case only_choice_vals unit D state of
        Inl e \<Rightarrow> Inl e
      | Inr state' \<Rightarrow> only_choice_units units D state')"

definition only_choice :: "('v, 'a) solver_scheme \<Rightarrow> 'v state \<Rightarrow> error + 'v state" where
  "only_choice slv state = only_choice_units (C_units slv) (D_vals slv) state"

subsection \<open>Naked twins (sudoku.py)\<close>

text \<open>\<open>[state[box] for box in unit if len(state[box]) == 2]\<close>\<close>

fun pair_values :: "'v state \<Rightarrow> 'v list \<Rightarrow> error + string list" where
  "pair_values state [] = Inr []"
| "pair_values state (box # bs) =
     (case getitem state box of
        Inl e \<Rightarrow> Inl e
      | Inr v \<Rightarrow>
          (case pair_values state bs of
             Inl e \<Rightarrow> Inl e
           | Inr vs \<Rightarrow> Inr (if length v = 2 then v # vs else vs)))"

text \<open>The keys of a \<open>Counter\<close>, in the order of their first occurrence.\<close>

fun Counter_keys :: "'a list \<Rightarrow> 'a list" where
  "Counter_keys [] = []"
| "Counter_keys (x # xs) = x # filter (\<lambda>y. y \<noteq> x) (Counter_keys xs)"

definition twins_of :: "string list \<Rightarrow> string list" where
  "twins_of all_pairs = filter (\<lambda>key. count_list all_pairs key = 2) (Counter_keys all_pairs)"

fun twins_boxes :: "string \<Rightarrow> char \<Rightarrow> 'v list \<Rightarrow> 'v state \<Rightarrow> error + 'v state" where
  "twins_boxes twin num [] state = Inr state"
| "twins_boxes twin num (box # bs) state =
     (case getitem state box of
        Inl e \<Rightarrow> Inl e
      | Inr v \<Rightarrow>
          (if twin \<noteq> v then
             (case assign_value state box (replace_by_empty [num] v) of
                Inl e \<Rightarrow> Inl e
              | Inr state' \<Rightarrow> twins_boxes twin num bs state')
           else twins_boxes twin num bs state))"

fun twins_nums :: "string \<Rightarrow> string \<Rightarrow> 'v list \<Rightarrow> 'v state \<Rightarrow> error + 'v state" where
  "twins_nums twin [] unit state = Inr state"
| "twins_nums twin (num # nums) unit state =
     (case twins_boxes twin num unit state of
        Inl e \<Rightarrow> Inl e
      | Inr state' \<Rightarrow> twins_nums twin nums unit state')"

fun twins_loop :: "string list \<Rightarrow> 'v list \<Rightarrow> 'v state \<Rightarrow> error + 'v state" where
  "twins_loop [] unit state = Inr state"
| "twins_loop (twin # twins) unit state =
     (case twins_nums twin twin unit state of
        Inl e \<Rightarrow> Inl e
      | Inr state' \<Rightarrow> twins_loop twins unit state')"

fun naked_twins_units :: "'v list list \<Rightarrow> 'v state \<Rightarrow> error + 'v state" where
  "naked_twins_units [] state = Inr state"
| "naked_twins_units (unit # units) state =
     (case pair_values state unit of
        Inl e \<Rightarrow> Inl e
      | Inr all_pairs \<Rightarrow>
          (case twins_loop (twins_of all_pairs) unit state of
             Inl e \<Rightarrow> Inl e
           | Inr state' \<Rightarrow> naked_twins_units units state'))"

definition naked_twins :: "('v, 'a) solver_scheme \<Rightarrow> 'v state \<Rightarrow> error + 'v state" where
  "naked_twins slv state = naked_twins_units (C_units slv) state"

subsection \<open>One propagation pass\<close>

fun apply_rule :: "('v, 'a) solver_scheme \<Rightarrow> rule \<Rightarrow> 'v state \<Rightarrow> error + 'v state" where
  "apply_rule slv Eliminate state = eliminate slv state"
| "apply_rule slv OnlyChoice state = only_choice slv state"
| "apply_rule slv NakedTwins state = naked_twins slv state"

text \<open>\<open>for fun in self.__reduce_funcs: state = fun(state)\<close>\<close>

fun apply_funcs :: "('v, 'a) solver_scheme \<Rightarrow> rule list \<Rightarrow> 'v state \<Rightarrow> error + 'v state" where
  "apply_funcs slv [] state = Inr state"
| "apply_funcs slv (f # fs) state =
     (case apply_rule slv f state of
        Inl e \<Rightarrow> Inl e
      | Inr state' \<Rightarrow> apply_funcs slv fs state')"

subsection \<open>Candidate strings only get shorter\<close>

definition sub :: "string \<Rightarrow> string \<Rightarrow> bool" where
  "sub v' v \<longleftrightarrow> length v' \<le> length v \<and> set v' \<subseteq> set v"

text \<open>\<open>narrows st st'\<close>: the same keys in the same order, every value of \<open>st'\<close> a
  shorter string over the characters of the value it replaces.\<close>

definition narrows :: "'v state \<Rightarrow> 'v state \<Rightarrow> bool" where
  "narrows st st' \<longleftrightarrow> list_all2 (\<lambda>p p'. fst p' = fst p \<and> sub (snd p') (snd p)) st st'"

definition total_len :: "'v state \<Rightarrow> nat" where
  "total_len st = sum_list (map (\<lambda>p. length (snd p)) st)"

lemma sub_refl: "sub v v"
  by (simp add: sub_def)

lemma sub_trans: "sub v'' v' \<Longrightarrow> sub v' v \<Longrightarrow> sub v'' v"
  by (auto simp: sub_def)

lemma narrows_refl: "narrows st st"
  by (simp add: narrows_def list_all2_refl sub_refl)

lemma narrows_trans:
  assumes "narrows st st'" and "narrows st' st''"
  shows "narrows st st''"
  unfolding narrows_def
  by (rule list_all2_trans[OF _ assms[unfolded narrows_def]]) (auto intro: sub_trans)

lemma narrows_keys: "narrows st st' \<Longrightarrow> keys st' = keys st"
  unfolding narrows_def keys_def
  by (induction st st' rule: list_all2_induct) auto

lemma narrows_map_of:
  "narrows st st' \<Longrightarrow> map_of st k = Some v \<Longrightarrow> \<exists>v'. map_of st' k = Some v' \<and> sub v' v"
  unfolding narrows_def
  by (induction st st' rule: list_all2_induct) (auto split: if_splits)

lemma narrows_map_of_rev:
  "narrows st st' \<Longrightarrow> map_of st' k = Some v' \<Longrightarrow> \<exists>v. map_of st k = Some v \<and> sub v' v"
  unfolding narrows_def
  by (induction st st' rule: list_all2_induct) (auto split: if_splits)

lemma narrows_update:
  "map_of st k = Some v \<Longrightarrow> sub v' v \<Longrightarrow> narrows st (AList.update k v' st)"
  unfolding narrows_def
  by (induction st) (auto simp: list_all2_refl sub_refl split: if_splits)

lemma narrows_total_len: "narrows st st' \<Longrightarrow> total_len st' \<le> total_len st"
  unfolding narrows_def total_len_def
  by (induction st st' rule: list_all2_induct) (auto simp: sub_def)

lemma narrows_same_lengths_aux:
  "list_all2 (\<lambda>p p'. fst p' = fst p \<and> sub (snd p') (snd p)) st st' \<Longrightarrow>
   total_len st' = total_len st \<Longrightarrow>
   map (\<lambda>p. (fst p, length (snd p))) st' = map (\<lambda>p. (fst p, length (snd p))) st"
proof (induction st st' rule: list_all2_induct)
  case Nil
  then show ?case by simp
next
  case (Cons p st p' st')
  have le: "total_len st' \<le> total_len st"
    using Cons.hyps(2) by (simp add: narrows_total_len narrows_def)
  have "length (snd p') \<le> length (snd p)"
    using Cons.hyps(1) by (simp add: sub_def)
  with le Cons.prems have "length (snd p') = length (snd p)" "total_len st' = total_len st"
    by (simp_all add: total_len_def)
  with Cons show ?case by simp
qed

lemma narrows_same_lengths:
  "narrows st st' \<Longrightarrow> total_len st' = total_len st \<Longrightarrow>
   map (\<lambda>p. (fst p, length (snd p))) st' = map (\<lambda>p. (fst p, length (snd p))) st"
  unfolding narrows_def by (rule narrows_same_lengths_aux)

lemma replace_by_empty_sub: "sub (replace_by_empty old s) s"
proof (induction old s rule: replace_by_empty.induct)
  case (1 old s)
  show ?case
  proof (cases "old = [] \<or> s = []")
    case True
    then have "replace_by_empty old s = s"
      by (subst replace_by_empty.simps) simp
    then show ?thesis by (simp add: sub_def)
  next
    case False
    note nonempty = this
    show ?thesis
    proof (cases "take (length old) s = old")
      case True
      have "sub (replace_by_empty old (drop (length old) s)) (drop (length old) s)"
        using "1.IH"(1) nonempty True by simp
      moreover have "sub (drop (length old) s) s"
        using set_drop_subset[of "length old" s] by (simp add: sub_def)
      ultimately have "sub (replace_by_empty old (drop (length old) s)) s"
        by (rule sub_trans)
      then show ?thesis
        using nonempty True by (subst replace_by_empty.simps) simp
    next
      case False
      have ih: "sub (replace_by_empty old (tl s)) (tl s)"
        using "1.IH"(2) nonempty False by simp
      obtain c cs where s: "s = c # cs"
        using nonempty by (cases s) auto
      have "sub (c # replace_by_empty old cs) (c # cs)"
        using ih s by (auto simp: sub_def)
      then show ?thesis
        using nonempty False s by (subst replace_by_empty.simps) simp
    qed
  qed
qed

lemma getitem_Inr: "getitem d k = Inr v \<longleftrightarrow> map_of d k = Some v"
  by (simp add: getitem_def split: option.splits)

lemma getitem_Inl: "getitem d k = Inl e \<longleftrightarrow> map_of d k = None \<and> e = KeyError"
  by (auto simp: getitem_def split: option.splits)

lemma assign_value_narrows:
  assumes "assign_value st k v' = Inr st'"
    and "\<And>v. map_of st k = Some v \<Longrightarrow> sub v' v"
  shows "narrows st st'"
proof -
  obtain v where v: "map_of st k = Some v"
    using assms(1) by (auto simp: assign_value_def getitem_def split: option.splits)
  then have "st' = (if v \<noteq> v' then AList.update k v' st else st)"
    using assms(1) by (simp add: assign_value_def getitem_def)
  then show ?thesis
    using narrows_update[OF v assms(2)[OF v]] narrows_refl by auto
qed

lemma eliminate_peers_narrows:
  "eliminate_peers val ps st = Inr st' \<Longrightarrow> narrows st st'"
proof (induction ps arbitrary: st)
  case Nil
  then show ?case by (simp add: narrows_refl)
next
  case (Cons peer ps)
  from Cons.prems obtain pv st1 where
    pv: "map_of st peer = Some pv" and
    a: "assign_value st peer (replace_by_empty val pv) = Inr st1" and
    r: "eliminate_peers val ps st1 = Inr st'"
    by (auto simp: getitem_Inr split: sum.splits)
  have "narrows st st1"
    using a pv by (auto intro!: assign_value_narrows replace_by_empty_sub)
  with Cons.IH[OF r] show ?case by (rule narrows_trans[rotated])
qed

lemma eliminate_items_narrows:
  "eliminate_items prs items st = Inr st' \<Longrightarrow> narrows st st'"
proof (induction items arbitrary: st)
  case Nil
  then show ?case by (simp add: narrows_refl)
next
  case (Cons item items)
  from Cons.prems obtain val ps st1 where
    e: "eliminate_peers val ps st = Inr st1" and
    r: "eliminate_items prs items st1 = Inr st'"
    by (auto split: sum.splits)
  from eliminate_peers_narrows[OF e] Cons.IH[OF r] show ?case by (rule narrows_trans)
qed

lemma eliminate_narrows: "eliminate slv st = Inr st' \<Longrightarrow> narrows st st'"
  unfolding eliminate_def by (rule eliminate_items_narrows)

lemma dplaces_member:
  "dplaces st c unit = Inr ds \<Longrightarrow> d \<in> set ds \<Longrightarrow> \<exists>v. map_of st d = Some v \<and> c \<in> set v"
  by (induction unit arbitrary: ds) (auto simp: getitem_Inr split: sum.splits if_splits)

lemma sub_single: "c \<in> set v \<Longrightarrow> sub [c] v"
  by (cases v) (auto simp: sub_def)

lemma only_choice_vals_narrows:
  "only_choice_vals unit vals st = Inr st' \<Longrightarrow> narrows st st'"
proof (induction vals arbitrary: st)
  case Nil
  then show ?case by (simp add: narrows_refl)
next
  case (Cons c vals)
  from Cons.prems obtain ds where ds: "dplaces st c unit = Inr ds"
    by (auto split: sum.splits)
  show ?case
  proof (cases "length ds = 1")
    case True
    with Cons.prems ds obtain st1 where
      a: "assign_value st (hd ds) [c] = Inr st1" and
      r: "only_choice_vals unit vals st1 = Inr st'"
      by (auto split: sum.splits)
    have "hd ds \<in> set ds" using True by (cases ds) auto
    from dplaces_member[OF ds this] have "narrows st st1"
      using a by (auto intro!: assign_value_narrows sub_single)
    with Cons.IH[OF r] show ?thesis by (rule narrows_trans[rotated])
  next
    case False
    with Cons.prems ds have "only_choice_vals unit vals st = Inr st'" by simp
    then show ?thesis by (rule Cons.IH)
  qed
qed

lemma only_choice_units_narrows:
  "only_choice_units units D st = Inr st' \<Longrightarrow> narrows st st'"
proof (induction units arbitrary: st)
  case Nil
  then show ?case by (simp add: narrows_refl)
next
  case (Cons unit units)
  from Cons.prems obtain st1 where
    v: "only_choice_vals unit D st = Inr st1" and
    r: "only_choice_units units D st1 = Inr st'"
    by (auto split: sum.splits)
  from only_choice_vals_narrows[OF v] Cons.IH[OF r] show ?case by (rule narrows_trans)
qed

lemma only_choice_narrows: "only_choice slv st = Inr st' \<Longrightarrow> narrows st st'"
  unfolding only_choice_def by (rule only_choice_units_narrows)

lemma twins_boxes_narrows:
  "twins_boxes twin num bs st = Inr st' \<Longrightarrow> narrows st st'"
proof (induction bs arbitrary: st)
  case Nil
  then show ?case by (simp add: narrows_refl)
next
  case (Cons box bs)
  from Cons.prems obtain v where v: "map_of st box = Some v"
    by (auto simp: getitem_Inr split: sum.splits)
  show ?case
  proof (cases "twin \<noteq> v")
    case True
    with Cons.prems v obtain st1 where
      a: "assign_value st box (replace_by_empty [num] v) = Inr st1" and
      r: "twins_boxes twin num bs st1 = Inr st'"
      by (auto simp: getitem_def split: sum.splits)
    have "narrows st st1"
      using a v by (auto intro!: assign_value_narrows replace_by_empty_sub)
    with Cons.IH[OF r] show ?thesis by (rule narrows_trans[rotated])
  next
    case False
    with Cons.prems v have "twins_boxes twin num bs st = Inr st'"
      by (simp add: getitem_def)
    then show ?thesis by (rule Cons.IH)
  qed
qed

lemma twins_nums_narrows:
  "twins_nums twin nums unit st = Inr st' \<Longrightarrow> narrows st st'"
proof (induction nums arbitrary: st)
  case Nil
  then show ?case by (simp add: narrows_refl)
next
  case (Cons num nums)
  from Cons.prems obtain st1 where
    b: "twins_boxes twin num unit st = Inr st1" and
    r: "twins_nums twin nums unit st1 = Inr st'"
    by (auto split: sum.splits)
  from twins_boxes_narrows[OF b] Cons.IH[OF r] show ?case by (rule narrows_trans)
qed

lemma twins_loop_narrows:
  "twins_loop twins unit st = Inr st' \<Longrightarrow> narrows st st'"
proof (induction twins arbitrary: st)
  case Nil
  then show ?case by (simp add: narrows_refl)
next
  case (Cons twin twins)
  from Cons.prems obtain st1 where
    b: "twins_nums twin twin unit st = Inr st1" and
    r: "twins_loop twins unit st1 = Inr st'"
    by (auto split: sum.splits)
  from twins_nums_narrows[OF b] Cons.IH[OF r] show ?case by (rule narrows_trans)
qed

lemma naked_twins_units_narrows:
  "naked_twins_units units st = Inr st' \<Longrightarrow> narrows st st'"
proof (induction units arbitrary: st)
  case Nil
  then show ?case by (simp add: narrows_refl)
next
  case (Cons unit units)
  from Cons.prems obtain all_pairs st1 where
    b: "twins_loop (twins_of all_pairs) unit st = Inr st1" and
    r: "naked_twins_units units st1 = Inr st'"
    by (auto split: sum.splits)
  from twins_loop_narrows[OF b] Cons.IH[OF r] show ?case by (rule narrows_trans)
qed

lemma naked_twins_narrows: "naked_twins slv st = Inr st' \<Longrightarrow> narrows st st'"
  unfolding naked_twins_def by (rule naked_twins_units_narrows)

lemma apply_rule_narrows: "apply_rule slv f st = Inr st' \<Longrightarrow> narrows st st'"
  by (cases f) (auto intro: eliminate_narrows only_choice_narrows naked_twins_narrows)

lemma apply_funcs_narrows: "apply_funcs slv fs st = Inr st' \<Longrightarrow> narrows st st'"
proof (induction fs arbitrary: st)
  case Nil
  then show ?case by (simp add: narrows_refl)
next
  case (Cons f fs)
  from Cons.prems obtain st1 where
    b: "apply_rule slv f st = Inr st1" and
    r: "apply_funcs slv fs st1 = Inr st'"
    by (auto split: sum.splits)
  from apply_rule_narrows[OF b] Cons.IH[OF r] show ?case by (rule narrows_trans)
qed

subsection \<open>The propagation loop\<close>

definition lens :: "'v state \<Rightarrow> ('v \<times> nat) list" where
  "lens st = map (\<lambda>p. (fst p, length (snd p))) st"

lemma map_of_lens: "map_of (lens st) k = map_option length (map_of st k)"
  unfolding lens_def by (induction st) auto

lemma solved_units_lens:
  "solved_units st = filter (\<lambda>item. map_of (lens st) item = Some 1) (map fst (lens st))"
proof -
  have "(case map_of st item of Some v \<Rightarrow> length v = 1 | None \<Rightarrow> False) \<longleftrightarrow>
        map_of (lens st) item = Some 1" for item
    by (simp add: map_of_lens split: option.splits)
  moreover have "map fst (lens st) = keys st"
    by (simp add: lens_def keys_def comp_def)
  ultimately show ?thesis by (simp add: solved_units_def)
qed

lemma narrows_count_changed:
  assumes "narrows st st'" and "solved_units_count st \<noteq> solved_units_count st'"
  shows "total_len st' < total_len st"
proof (rule ccontr)
  assume "\<not> total_len st' < total_len st"
  with narrows_total_len[OF assms(1)] have "total_len st' = total_len st" by simp
  from narrows_same_lengths[OF assms(1) this] have "lens st' = lens st"
    by (simp add: lens_def)
  then have "solved_units st' = solved_units st"
    by (simp add: solved_units_lens)
  with assms(2) show False by (simp add: solved_units_count_def)
qed

lemma apply_funcs_decreases:
  "apply_funcs slv fs st = Inr st' \<Longrightarrow> solved_units_count st \<noteq> solved_units_count st' \<Longrightarrow>
   total_len st' < total_len st"
  by (rule narrows_count_changed[OF apply_funcs_narrows])

text \<open>
  The \<open>while not stalled\<close> loop of \<open>__reduce\<close>. The dict is changed in place, so the
  state comes back also when the method returns False: the result is the dict after the
  call and whether the method returned it (True) or returned False.
\<close>

function reduce_loop :: "('v, 'a) solver_scheme \<Rightarrow> bool \<Rightarrow> 'v state \<Rightarrow> error + ('v state \<times> bool)" where
  "reduce_loop slv stalled state =
     (if stalled then Inr (state, True)
      else
        (case apply_funcs slv (reduce_funcs slv) state of
           Inl e \<Rightarrow> Inl e
         | Inr state' \<Rightarrow>
             (if unsolvable_units state' then Inr (state', False)
              else reduce_loop slv (solved_units_count state = solved_units_count state') state')))"
  by pat_completeness auto
termination
  by (relation "measure (\<lambda>(slv, stalled, st). if stalled then 0 else Suc (total_len st))")
     (auto dest: apply_funcs_decreases)

declare reduce_loop.simps [simp del]

text \<open>The counters are the only fields \<open>__reduce\<close> and \<open>__search\<close> write; they are
  passed along as the pair \<open>(reduce_count, search_count)\<close>.\<close>

definition reduce ::
  "('v, 'a) solver_scheme \<Rightarrow> 'v state \<Rightarrow> nat \<times> nat \<Rightarrow> error + ('v state \<times> bool \<times> (nat \<times> nat))" where
  "reduce slv state cnt =
     (case reduce_loop slv False state of
        Inl e \<Rightarrow> Inl e
      | Inr (state', ok) \<Rightarrow> Inr (state', ok, (Suc (fst cnt), snd cnt)))"

subsection \<open>Search\<close>

text \<open>What \<open>__search\<close> returns: False, None (the loop ran out), or a state.\<close>

datatype 'v attempt = PyFalse | PyNone | PyState "'v state"

text \<open>\<open>if attempt:\<close> an empty dict is as false as False and None.\<close>

fun truthy :: "'v attempt \<Rightarrow> bool" where
  "truthy PyFalse = False"
| "truthy PyNone = False"
| "truthy (PyState st) = (st \<noteq> [])"

text \<open>\<open>all(len(state[item]) == 1 for item in self.__X)\<close>, stopping at the first
  False.\<close>

fun all_solved :: "'v state \<Rightarrow> 'v list \<Rightarrow> error + bool" where
  "all_solved state [] = Inr True"
| "all_solved state (item # items) =
     (case getitem state item of
        Inl e \<Rightarrow> Inl e
      | Inr v \<Rightarrow> (if length v = 1 then all_solved state items else Inr False))"

text \<open>\<open>(len(state[item]), item) for item in self.__X if len(state[item]) > 1\<close>\<close>

fun unfilled :: "'v state \<Rightarrow> 'v list \<Rightarrow> error + (nat \<times> 'v) list" where
  "unfilled state [] = Inr []"
| "unfilled state (item # items) =
     (case getitem state item of
        Inl e \<Rightarrow> Inl e
      | Inr v \<Rightarrow>
          (case unfilled state items of
             Inl e \<Rightarrow> Inl e
           | Inr ps \<Rightarrow> Inr (if length v > 1 then (length v, item) # ps else ps)))"

text \<open>\<open>min\<close> of a sequence: ValueError when it is empty; tuples compare
  lexicographically.\<close>

fun py_min :: "('a :: linorder) list \<Rightarrow> error + 'a" where
  "py_min [] = Inl ValueError"
| "py_min (p # ps) = Inr (fold (\<lambda>x m. if x < m then x else m) ps p)"

lemma total_len_update:
  "map_of st k = Some v \<Longrightarrow>
   total_len (AList.update k v' st) + length v = total_len st + length v'"
  by (induction st) (auto simp: total_len_def split: if_splits)

lemma assign_value_single_total_len:
  assumes "assign_value st s [val] = Inr new"
  shows "total_len new = Suc (total_len (AList.update s [] st))"
proof -
  obtain v where v: "map_of st s = Some v"
    and new: "new = (if v \<noteq> [val] then AList.update s [val] st else st)"
    using assms by (auto simp: assign_value_def getitem_def split: option.splits)
  from total_len_update[OF v, of "[val]"] total_len_update[OF v, of "[]"] new
  show ?thesis by (auto split: if_splits)
qed

lemma reduce_loop_narrows:
  "reduce_loop slv stalled st = Inr (st', ok) \<Longrightarrow> narrows st st'"
proof (induction slv stalled st rule: reduce_loop.induct)
  case (1 slv stalled state)
  show ?case
  proof (cases stalled)
    case True
    with "1.prems" show ?thesis
      by (simp add: reduce_loop.simps narrows_refl)
  next
    case False
    with "1.prems" obtain state1 where
      ap: "apply_funcs slv (reduce_funcs slv) state = Inr state1"
      by (subst (asm) reduce_loop.simps) (auto split: sum.splits)
    note n1 = apply_funcs_narrows[OF ap]
    show ?thesis
    proof (cases "unsolvable_units state1")
      case True
      with "1.prems" False ap have "st' = state1"
        by (subst (asm) reduce_loop.simps) simp
      with n1 show ?thesis by simp
    next
      case u: False
      with "1.prems" False ap have
        "reduce_loop slv (solved_units_count state = solved_units_count state1) state1 = Inr (st', ok)"
        by (subst (asm) reduce_loop.simps) simp
      from "1.IH"[OF False ap u this] n1 show ?thesis
        by (rule narrows_trans[rotated])
    qed
  qed
qed

lemma reduce_narrows: "reduce slv st cnt = Inr (st', ok, cnt') \<Longrightarrow> narrows st st'"
  by (auto simp: reduce_def split: sum.splits dest: reduce_loop_narrows)

lemma py_min_member: "py_min ps = Inr p \<Longrightarrow> p \<in> set ps"
proof -
  have "fold (\<lambda>x m. if x < m then x else m) qs q \<in> set (q # qs)" for qs and q :: 'a
    by (induction qs arbitrary: q) auto
  then show "py_min ps = Inr p \<Longrightarrow> p \<in> set ps"
    by (cases ps) auto
qed

lemma unfilled_member:
  "unfilled st xs = Inr ps \<Longrightarrow> (n, s) \<in> set ps \<Longrightarrow>
   s \<in> set xs \<and> (\<exists>v. map_of st s = Some v \<and> length v = n \<and> 1 < n)"
  by (induction xs arbitrary: ps) (auto simp: getitem_Inr split: sum.splits if_splits)

lemma branch_measure:
  assumes "reduce slv st cnt = Inr (st1, ok, cnt1)"
    and "unfilled st1 xs = Inr ps" and "py_min ps = Inr (n, s)"
    and "getitem st1 s = Inr vals"
  shows "total_len (AList.update s [] st1) + 2 \<le> total_len st"
proof -
  from unfilled_member[OF assms(2) py_min_member[OF assms(3)]] assms(4)
  have v: "map_of st1 s = Some vals" and "1 < length vals"
    by (auto simp: getitem_Inr)
  with total_len_update[OF v, of "[]"] narrows_total_len[OF reduce_narrows[OF assms(1)]]
  show ?thesis by simp
qed

text \<open>
  \<open>__search\<close> and its \<open>for val in state[s]\<close> loop. \<open>search\<close> returns the dict it
  was given as propagation left it, the value returned, and the counters;
  \<open>state.copy()\<close> is the value \<open>state\<close> itself, which no call changes.
\<close>

function search ::
    "('v :: linorder, 'a) solver_scheme \<Rightarrow> 'v state \<Rightarrow> nat \<times> nat \<Rightarrow>
     error + ('v state \<times> 'v attempt \<times> (nat \<times> nat))"
  and search_vals ::
    "('v, 'a) solver_scheme \<Rightarrow> 'v state \<Rightarrow> 'v \<Rightarrow> string \<Rightarrow> nat \<times> nat \<Rightarrow>
     error + ('v attempt \<times> (nat \<times> nat))" where
  "search slv state cnt =
     (case reduce slv state cnt of
        Inl e \<Rightarrow> Inl e
      | Inr (state1, ok, cnt1) \<Rightarrow>
          (if \<not> ok then Inr (state1, PyFalse, cnt1)
           else
             (case all_solved state1 (X_vars slv) of
                Inl e \<Rightarrow> Inl e
              | Inr True \<Rightarrow> Inr (state1, PyState state1, cnt1)
              | Inr False \<Rightarrow>
                  (case unfilled state1 (X_vars slv) of
                     Inl e \<Rightarrow> Inl e
                   | Inr ps \<Rightarrow>
                       (case py_min ps of
                          Inl e \<Rightarrow> Inl e
                        | Inr (n, s) \<Rightarrow>
                            (case getitem state1 s of
                               Inl e \<Rightarrow> Inl e
                             | Inr vals \<Rightarrow>
                                 (case search_vals slv state1 s vals (fst cnt1, Suc (snd cnt1)) of
                                    Inl e \<Rightarrow> Inl e
                                  | Inr (attempt, cnt2) \<Rightarrow> Inr (state1, attempt, cnt2))))))))"
| "search_vals slv state s [] cnt = Inr (PyNone, cnt)"
| "search_vals slv state s (val # vals) cnt =
     (case assign_value state s [val] of
        Inl e \<Rightarrow> Inl e
      | Inr new_state \<Rightarrow>
          (case search slv new_state cnt of
             Inl e \<Rightarrow> Inl e
           | Inr (mutated, attempt, cnt') \<Rightarrow>
               (if truthy attempt then Inr (attempt, cnt')
                else search_vals slv state s vals cnt')))"
  by pat_completeness auto
termination
  by (relation "inv_image (less_than <*lex*> less_than <*lex*> less_than)
        (\<lambda>x. case x of
           Inl (slv, st, cnt) \<Rightarrow> (total_len st, Suc 0, 0)
         | Inr (slv, st, s, vals, cnt) \<Rightarrow> (total_len (AList.update s [] st) + 2, 0, length vals))")
     (auto dest: branch_measure assign_value_single_total_len)

declare search.simps [simp del]

subsection \<open>solve\<close>

text \<open>
  \<open>solve\<close> resets the counters, searches from the internal state (which the top-level
  propagation changes in place), and on a true result stores it and sets the flag. It
  returns the flag, whatever the search returned.
\<close>

definition solve :: "('v :: linorder) solver \<Rightarrow> error + ('v solver \<times> bool)" where
  "solve slv =
     (let slv0 = slv\<lparr>reduce_count := 0, search_count := 0\<rparr> in
      case search slv0 (internal_state slv0) (reduce_count slv0, search_count slv0) of
        Inl e \<Rightarrow> Inl e
      | Inr (mutated, attempt, cnt) \<Rightarrow>
          (let slv1 = slv0\<lparr>internal_state := mutated,
                            reduce_count := fst cnt, search_count := snd cnt\<rparr> in
           case attempt of
             PyState a \<Rightarrow>
               (if a \<noteq> [] then
                  (let slv2 = slv1\<lparr>internal_state := a, solved := True\<rparr>
                   in Inr (slv2, solved slv2))
                else Inr (slv1, solved slv1))
           | _ \<Rightarrow> Inr (slv1, solved slv1)))"

section \<open>The adapters\<close>

text \<open>
  Both adapters build the peers with the same expression,
  \<open>dict((s, set(sum(C_groups[s], [])) - set([s])) for s in X)\<close> with
  \<open>C_groups[s] = [c for c in C if s in c]\<close>. The solver only iterates a peer set to
  update each member by a value fixed beforehand, so the order of the set does not
  matter and a duplicate-free list stands for it.
\<close>

definition unit_peers :: "'v list \<Rightarrow> 'v list list \<Rightarrow> ('v \<times> 'v list) list" where
  "unit_peers X C =
     map (\<lambda>s. (s, remdups (filter (\<lambda>y. y \<noteq> s) (concat (filter (\<lambda>c. s \<in> set c) C))))) X"

subsection \<open>map.py\<close>

definition X_map :: "string list" where
  "X_map = [''WA'', ''NT'', ''SA'', ''QL'', ''NSW'', ''VT'']"

definition D_map :: string where
  "D_map = ''RBG''"

definition C_map :: "string list list" where
  "C_map = [[''WA'', ''NT'', ''SA''], [''NT'', ''SA'', ''QL''],
            [''SA'', ''QL'', ''NSW''], [''SA'', ''NSW'', ''VT'']]"

text \<open>\<open>state_setup\<close>: a region missing from the given dict gets all colours; a given
  value is copied as it is.\<close>

definition state_setup :: "string state option \<Rightarrow> string state" where
  "state_setup state =
     (case state of
        None \<Rightarrow> map (\<lambda>x. (x, D_map)) X_map
      | Some given \<Rightarrow>
          map (\<lambda>x. (x, case map_of given x of Some v \<Rightarrow> v | None \<Rightarrow> D_map)) X_map)"

definition Australia_init :: "string state option \<Rightarrow> error + string solver" where
  "Australia_init state =
     ConstraintSolver_init (state_setup state) X_map D_map C_map (unit_peers X_map C_map)"

subsection \<open>sudoku.py\<close>

definition cross :: "string \<Rightarrow> string \<Rightarrow> string list" where
  "cross A B = concat (map (\<lambda>s. map (\<lambda>t. [s, t]) B) A)"

definition rows :: string where
  "rows = ''ABCDEFGHI''"

definition cols :: string where
  "cols = ''123456789''"

definition unit_values :: string where
  "unit_values = cols"

definition boxes :: "string list" where
  "boxes = cross rows cols"

definition diagonal_units :: "string \<Rightarrow> string \<Rightarrow> string list list" where
  "diagonal_units rs cs =
     [map (\<lambda>(r, c). [r, c]) (zip rs cs), map (\<lambda>(r, c). [r, c]) (zip rs (rev cs))]"

definition unitlist :: "bool \<Rightarrow> string list list" where
  "unitlist diagonal =
     map (\<lambda>r. cross [r] cols) rows @ map (\<lambda>c. cross rows [c]) cols @
     concat (map (\<lambda>rs. map (\<lambda>cs. cross rs cs) [''123'', ''456'', ''789''])
                 [''ABC'', ''DEF'', ''GHI'']) @
     (if diagonal then diagonal_units rows cols else [])"

text \<open>The loop of \<open>__grid_values\<close> over the characters of the grid: False (here None)
  at a character that is neither a digit 1-9 nor a dot.\<close>

fun grid_chars :: "string \<Rightarrow> bool \<Rightarrow> string list option" where
  "grid_chars [] non_val = Some []"
| "grid_chars (c # cs) non_val =
     (if c \<in> set unit_values then map_option (\<lambda>chars. [c] # chars) (grid_chars cs non_val)
      else if c = CHR ''.'' then
        map_option (\<lambda>chars. (if non_val then unit_values else ''.'') # chars)
          (grid_chars cs non_val)
      else None)"

definition grid_values :: "string \<Rightarrow> bool \<Rightarrow> string state option" where
  "grid_values grid non_val =
     (case grid_chars grid non_val of
        None \<Rightarrow> None
      | Some chars \<Rightarrow> (if length chars \<noteq> 81 then None else Some (zip boxes chars)))"

text \<open>\<open>Sudoku.__init__\<close>: with a grid that \<open>__grid_values\<close> refuses it prints a
  message and returns before the solver's fields are set (\<open>Inr None\<close>); nothing is
  raised.\<close>

definition Sudoku_init :: "string \<Rightarrow> bool \<Rightarrow> error + string solver option" where
  "Sudoku_init grid diagonal =
     (case grid_values grid True of
        None \<Rightarrow> Inr None
      | Some state \<Rightarrow>
          (case ConstraintSolver_init state boxes unit_values (unitlist diagonal)
                  (unit_peers boxes (unitlist diagonal)) of
             Inl e \<Rightarrow> Inl e
           | Inr slv \<Rightarrow> Inr (Some (slv\<lparr>reduce_funcs := reduce_funcs slv @ [NakedTwins]\<rparr>))))"

section \<open>Properties of the search\<close>

subsection \<open>The branches of \<open>__search\<close>\<close>

lemma search_cases:
  assumes "search slv st cnt = Inr (mut, a, cnt')"
  obtains (infeasible) cnt1 where
      "reduce slv st cnt = Inr (mut, False, cnt1)" "a = PyFalse" "cnt' = cnt1"
  | (solved) cnt1 where
      "reduce slv st cnt = Inr (mut, True, cnt1)" "all_solved mut (X_vars slv) = Inr True"
      "a = PyState mut" "cnt' = cnt1"
  | (branch) cnt1 ps n s vals where
      "reduce slv st cnt = Inr (mut, True, cnt1)" "all_solved mut (X_vars slv) = Inr False"
      "unfilled mut (X_vars slv) = Inr ps" "py_min ps = Inr (n, s)"
      "getitem mut s = Inr vals"
      "search_vals slv mut s vals (fst cnt1, Suc (snd cnt1)) = Inr (a, cnt')"
  using assms
  by (subst (asm) search.simps) (auto split: sum.splits prod.splits if_splits bool.splits)

text \<open>
  \<open>solution_of slv st r\<close>: the state \<open>r\<close> is a leaf of the search tree below \<open>st\<close>
  at which propagation succeeded and every variable is solved. A state the search
  returns is such a leaf.
\<close>

inductive solution_of :: "('v :: linorder, 'a) solver_scheme \<Rightarrow> 'v state \<Rightarrow> 'v state \<Rightarrow> bool"
  for slv :: "('v, 'a) solver_scheme" where
  leaf: "reduce slv st cnt = Inr (st1, True, cnt1) \<Longrightarrow> all_solved st1 (X_vars slv) = Inr True \<Longrightarrow>
      solution_of slv st st1"
| branch: "reduce slv st cnt = Inr (st1, True, cnt1) \<Longrightarrow>
      unfilled st1 (X_vars slv) = Inr ps \<Longrightarrow> py_min ps = Inr (n, s) \<Longrightarrow>
      getitem st1 s = Inr vals \<Longrightarrow> v \<in> set vals \<Longrightarrow> assign_value st1 s [v] = Inr new \<Longrightarrow>
      solution_of slv new r \<Longrightarrow> solution_of slv st r"

lemma search_solution_of_aux:
  "\<forall>mut r cnt'. search slv st cnt = Inr (mut, PyState r, cnt') \<longrightarrow> solution_of slv st r"
  "\<forall>r cnt'. search_vals slv st1 s vals cnt = Inr (PyState r, cnt') \<longrightarrow>
     (\<exists>v \<in> set vals. \<exists>new. assign_value st1 s [v] = Inr new \<and> solution_of slv new r)"
proof (induction slv st cnt and slv st1 s vals cnt rule: search_search_vals.induct)
  case (1 slv state cnt)
  show ?case
  proof (intro allI impI)
    fix mut r cnt'
    assume a: "search slv state cnt = Inr (mut, PyState r, cnt')"
    from a show "solution_of slv state r"
    proof (cases rule: search_cases)
      case (infeasible cnt1)
      then show ?thesis by simp
    next
      case (solved cnt1)
      then show ?thesis by (auto intro: solution_of.leaf)
    next
      case (branch cnt1 ps n s vals)
      from "1.IH"[OF branch(1) refl refl _ branch(2) refl branch(3) branch(4) refl branch(5)]
        branch(6)
      obtain v new where "v \<in> set vals" "assign_value mut s [v] = Inr new" "solution_of slv new r"
        by auto
      with branch show ?thesis by (auto intro: solution_of.branch)
    qed
  qed
next
  case (2 slv state s cnt)
  show ?case by simp
next
  case (3 slv state s val vals cnt)
  show ?case
  proof (intro allI impI)
    fix r cnt'
    assume a: "search_vals slv state s (val # vals) cnt = Inr (PyState r, cnt')"
    then obtain new m att c1 where
      av: "assign_value state s [val] = Inr new" and
      se: "search slv new cnt = Inr (m, att, c1)" and
      rest: "if truthy att then att = PyState r \<and> c1 = cnt'
             else search_vals slv state s vals c1 = Inr (PyState r, cnt')"
      by (auto split: sum.splits if_splits)
    show "\<exists>v\<in>set (val # vals). \<exists>new. assign_value state s [v] = Inr new \<and> solution_of slv new r"
    proof (cases "truthy att")
      case True
      with rest se "3.IH"(1)[OF av] have "solution_of slv new r" by auto
      with av show ?thesis by auto
    next
      case False
      with rest "3.IH"(2)[OF av se refl refl False] show ?thesis by auto
    qed
  qed
qed

lemma search_solution_of:
  "search slv st cnt = Inr (mut, PyState r, cnt') \<Longrightarrow> solution_of slv st r"
  using search_solution_of_aux(1) by blast

lemma solution_of_narrows: "solution_of slv st r \<Longrightarrow> narrows st r"
proof (induction rule: solution_of.induct)
  case (leaf st cnt st1 cnt1)
  then show ?case by (auto dest: reduce_narrows)
next
  case (branch st cnt st1 cnt1 ps n s vals v new r)
  have "narrows st1 new"
    using branch.hyps(4,5,6)
    by (auto intro!: assign_value_narrows sub_single simp: getitem_Inr)
  with reduce_narrows[OF branch.hyps(1)] branch.IH show ?case
    by (blast intro: narrows_trans)
qed

lemma all_solved_True:
  "all_solved st xs = Inr True \<Longrightarrow> x \<in> set xs \<Longrightarrow> \<exists>c. map_of st x = Some [c]"
proof (induction xs)
  case Nil
  then show ?case by simp
next
  case (Cons y ys)
  from Cons.prems(1) obtain v where v: "map_of st y = Some v" "length v = 1"
    and rest: "all_solved st ys = Inr True"
    by (auto simp: getitem_Inr split: sum.splits if_splits)
  from v obtain c where "v = [c]" by (cases v) auto
  with v Cons.IH[OF rest] Cons.prems(2) show ?case by auto
qed

lemma solution_of_leaf:
  "solution_of slv st r \<Longrightarrow>
   all_solved r (X_vars slv) = Inr True \<and> (\<exists>pre cnt cnt1. reduce slv pre cnt = Inr (r, True, cnt1))"
  by (induction rule: solution_of.induct) blast+

text \<open>What a successful \<open>solve\<close> on a solver not yet flagged as solved amounts to.\<close>

lemma solve_success:
  assumes "\<not> solved slv" and "solve slv = Inr (slv', True)"
  shows "\<exists>cnt. slv' = slv\<lparr>internal_state := internal_state slv', solved := True,
                          reduce_count := fst cnt, search_count := snd cnt\<rparr> \<and>
           internal_state slv' \<noteq> [] \<and>
           (\<exists>mut. search (slv\<lparr>reduce_count := 0, search_count := 0\<rparr>) (internal_state slv) (0, 0) =
              Inr (mut, PyState (internal_state slv'), cnt))"
  using assms
  by (auto simp: solve_def Let_def split: sum.splits prod.splits attempt.splits if_splits)

lemma solve_success_solution_of:
  assumes "\<not> solved slv" and "solve slv = Inr (slv', True)"
  shows "solution_of (slv\<lparr>reduce_count := 0, search_count := 0\<rparr>) (internal_state slv)
           (internal_state slv')"
  using solve_success[OF assms] by (auto dest: search_solution_of)

subsection \<open>A solved leaf is a fixed point of the pass\<close>

definition all_single :: "'v state \<Rightarrow> bool" where
  "all_single st \<longleftrightarrow> (\<forall>p \<in> set st. length (snd p) = 1)"

lemma narrows_single_eq:
  "narrows a b \<Longrightarrow> all_single a \<Longrightarrow> all_single b \<Longrightarrow> a = b"
  unfolding narrows_def all_single_def
proof (induction a b rule: list_all2_induct)
  case Nil
  then show ?case by simp
next
  case (Cons p a q b)
  from Cons.prems have "length (snd p) = 1" "length (snd q) = 1" by auto
  moreover from Cons.hyps(1) have "fst q = fst p" "set (snd q) \<subseteq> set (snd p)"
    by (auto simp: sub_def)
  ultimately have "snd q = snd p"
    by (cases "snd p"; cases "snd q") auto
  with \<open>fst q = fst p\<close> have "p = q" by (simp add: prod_eq_iff)
  with Cons show ?case by auto
qed

lemma narrows_sandwich:
  assumes "narrows r m" and "narrows m r" and "all_single r"
  shows "m = r"
proof -
  have len: "length m = length r"
    using assms(1) by (auto simp: narrows_def dest: list_all2_lengthD)
  have "all_single m"
    unfolding all_single_def
  proof
    fix p assume "p \<in> set m"
    then obtain i where i: "i < length m" "p = m ! i" by (auto simp: in_set_conv_nth)
    with len have ri: "r ! i \<in> set r" by simp
    from assms(1) i len have "sub (snd (m ! i)) (snd (r ! i))"
      by (auto simp: narrows_def list_all2_conv_all_nth)
    moreover from assms(2) i len have "sub (snd (r ! i)) (snd (m ! i))"
      by (auto simp: narrows_def list_all2_conv_all_nth)
    moreover from assms(3) ri have "length (snd (r ! i)) = 1" by (simp add: all_single_def)
    ultimately show "length (snd p) = 1" using i by (simp add: sub_def)
  qed
  with narrows_single_eq[OF assms(2) this assms(3)] show ?thesis by simp
qed

lemma length_filter_all: "length (filter P xs) = length xs \<Longrightarrow> x \<in> set xs \<Longrightarrow> P x"
proof (induction xs)
  case Nil
  then show ?case by simp
next
  case (Cons y ys)
  show ?case
  proof (cases "P y")
    case True
    with Cons show ?thesis by auto
  next
    case False
    with Cons.prems(1) have "length (filter P ys) = Suc (length ys)" by simp
    moreover have "length (filter P ys) \<le> length ys" by (rule length_filter_le)
    ultimately show ?thesis by linarith
  qed
qed

lemma all_single_count:
  assumes "distinct (keys st)"
  shows "all_single st \<longleftrightarrow> solved_units_count st = length st"
proof
  assume a: "all_single st"
  have "filter (\<lambda>item. case map_of st item of Some v \<Rightarrow> length v = 1 | None \<Rightarrow> False) (keys st) = keys st"
  proof (rule filter_True, rule ballI)
    fix k assume "k \<in> set (keys st)"
    then obtain v where "(k, v) \<in> set st" by (auto simp: keys_def)
    with assms a
    show "case map_of st k of Some v \<Rightarrow> length v = 1 | None \<Rightarrow> False"
      by (auto simp: keys_def all_single_def)
  qed
  then show "solved_units_count st = length st"
    by (simp add: solved_units_count_def solved_units_def keys_def)
next
  assume c: "solved_units_count st = length st"
  show "all_single st"
    unfolding all_single_def
  proof
    fix p assume p: "p \<in> set st"
    then have "fst p \<in> set (keys st)" by (simp add: keys_def)
    moreover from c have "length (filter (\<lambda>item. case map_of st item of Some v \<Rightarrow> length v = 1 | None \<Rightarrow> False) (keys st)) = length (keys st)"
      by (simp add: solved_units_count_def solved_units_def keys_def)
    ultimately have "case map_of st (fst p) of Some v \<Rightarrow> length v = 1 | None \<Rightarrow> False"
      by (rule length_filter_all[rotated])
    moreover from assms p have "map_of st (fst p) = Some (snd p)"
      by (simp add: keys_def)
    ultimately show "length (snd p) = 1" by simp
  qed
qed

lemma reduce_loop_last_pass:
  "reduce_loop slv stalled st = Inr (r, True) \<Longrightarrow> \<not> stalled \<Longrightarrow>
   \<exists>pre. apply_funcs slv (reduce_funcs slv) pre = Inr r \<and> \<not> unsolvable_units r \<and>
         solved_units_count pre = solved_units_count r"
proof (induction slv stalled st rule: reduce_loop.induct)
  case (1 slv stalled state)
  from "1.prems" obtain state1 where
    ap: "apply_funcs slv (reduce_funcs slv) state = Inr state1"
    by (subst (asm) reduce_loop.simps) (auto split: sum.splits)
  from "1.prems" ap have u: "\<not> unsolvable_units state1"
    by (subst (asm) reduce_loop.simps) (auto split: if_splits)
  from "1.prems" ap u have rec:
    "reduce_loop slv (solved_units_count state = solved_units_count state1) state1 = Inr (r, True)"
    by (subst (asm) reduce_loop.simps) simp
  show ?case
  proof (cases "solved_units_count state = solved_units_count state1")
    case True
    with rec have "r = state1" by (simp add: reduce_loop.simps)
    with ap u True show ?thesis by auto
  next
    case False
    with "1.IH"[OF "1.prems"(2) ap u] rec show ?thesis by simp
  qed
qed


lemma assign_value_same: "assign_value st k w = Inr st \<Longrightarrow> map_of st k = Some w"
proof -
  assume a: "assign_value st k w = Inr st"
  then obtain v where v: "map_of st k = Some v"
    and st: "st = (if v \<noteq> w then AList.update k w st else st)"
    by (auto simp: assign_value_def getitem_def split: option.splits)
  show "map_of st k = Some w"
  proof (cases "v = w")
    case True
    with v show ?thesis by simp
  next
    case False
    with st have "st = AList.update k w st" by simp
    then have "map_of st k = map_of (AList.update k w st) k" by simp
    then show ?thesis by (simp add: update_conv')
  qed
qed

lemma eliminate_peers_fixed:
  "eliminate_peers val ps r = Inr r \<Longrightarrow> all_single r \<Longrightarrow> p \<in> set ps \<Longrightarrow>
   map_of r p = Some v \<Longrightarrow> replace_by_empty val v = v"
proof (induction ps)
  case Nil
  then show ?case by simp
next
  case (Cons q qs)
  from Cons.prems(1) obtain pv m where
    pv: "map_of r q = Some pv" and
    a: "assign_value r q (replace_by_empty val pv) = Inr m" and
    rest: "eliminate_peers val qs m = Inr r"
    by (auto simp: getitem_Inr split: sum.splits)
  have "narrows r m"
    using a pv by (auto intro!: assign_value_narrows replace_by_empty_sub)
  from narrows_sandwich[OF this eliminate_peers_narrows[OF rest] Cons.prems(2)]
  have m: "m = r" .
  from assign_value_same[OF a[unfolded m]] pv
  have here: "replace_by_empty val pv = pv" by simp
  show ?case
  proof (cases "p = q")
    case True
    with here pv Cons.prems(4) show ?thesis by simp
  next
    case False
    with Cons.prems(3) have "p \<in> set qs" by simp
    from Cons.IH[OF rest[unfolded m] Cons.prems(2) this Cons.prems(4)] show ?thesis .
  qed
qed

lemma eliminate_items_fixed:
  "eliminate_items prs items r = Inr r \<Longrightarrow> all_single r \<Longrightarrow> x \<in> set items \<Longrightarrow>
   map_of r x = Some val \<Longrightarrow> map_of prs x = Some ps \<Longrightarrow> p \<in> set ps \<Longrightarrow>
   map_of r p = Some v \<Longrightarrow> replace_by_empty val v = v"
proof (induction items)
  case Nil
  then show ?case by simp
next
  case (Cons y ys)
  from Cons.prems(1) obtain yval yps m where
    yval: "map_of r y = Some yval" and yps: "map_of prs y = Some yps" and
    e: "eliminate_peers yval yps r = Inr m" and
    rest: "eliminate_items prs ys m = Inr r"
    by (auto simp: getitem_Inr split: sum.splits)
  from narrows_sandwich[OF eliminate_peers_narrows[OF e] eliminate_items_narrows[OF rest]
      Cons.prems(2)]
  have m: "m = r" .
  show ?case
  proof (cases "x = y")
    case True
    with yval yps Cons.prems(4,5) have "yval = val" "yps = ps" by simp_all
    with eliminate_peers_fixed[OF e[unfolded m] Cons.prems(2)] Cons.prems(6,7)
    show ?thesis by simp
  next
    case False
    with Cons.prems(3) have "x \<in> set ys" by simp
    from Cons.IH[OF rest[unfolded m] Cons.prems(2) this Cons.prems(4-7)] show ?thesis .
  qed
qed

lemma replace_same_char: "replace_by_empty [c] [c] = []"
  by (subst replace_by_empty.simps, simp, subst replace_by_empty.simps, simp)

lemma apply_funcs_fixed:
  "apply_funcs slv fs r = Inr r \<Longrightarrow> all_single r \<Longrightarrow> f \<in> set fs \<Longrightarrow>
   apply_rule slv f r = Inr r"
proof (induction fs)
  case Nil
  then show ?case by simp
next
  case (Cons g gs)
  from Cons.prems(1) obtain m where
    g: "apply_rule slv g r = Inr m" and rest: "apply_funcs slv gs m = Inr r"
    by (auto split: sum.splits)
  from narrows_sandwich[OF apply_rule_narrows[OF g] apply_funcs_narrows[OF rest] Cons.prems(2)]
  have m: "m = r" .
  with g rest Cons show ?case by auto
qed

lemma all_solved_all_single:
  assumes "all_solved r xs = Inr True" and "distinct (keys r)" and "set (keys r) = set xs"
  shows "all_single r"
  unfolding all_single_def
proof
  fix p assume p: "p \<in> set r"
  then have "fst p \<in> set xs" using assms(3) by (auto simp: keys_def)
  from all_solved_True[OF assms(1) this] obtain c where "map_of r (fst p) = Some [c]" ..
  moreover from assms(2) p have "map_of r (fst p) = Some (snd p)" by (simp add: keys_def)
  ultimately show "length (snd p) = 1" by simp
qed

lemma solution_fixed_point:
  assumes "solution_of slv st r" and "distinct (keys st)" and "set (keys st) = set (X_vars slv)"
  shows "all_single r \<and> apply_funcs slv (reduce_funcs slv) r = Inr r \<and>
         \<not> unsolvable_units r \<and> keys r = keys st"
proof -
  have k: "keys r = keys st"
    using narrows_keys[OF solution_of_narrows[OF assms(1)]] .
  from solution_of_leaf[OF assms(1)] obtain pre cnt cnt1 where
    solved: "all_solved r (X_vars slv) = Inr True" and
    red: "reduce slv pre cnt = Inr (r, True, cnt1)"
    by blast
  have single: "all_single r"
    using solved assms(2,3) k by (auto intro: all_solved_all_single)
  from red have "reduce_loop slv False pre = Inr (r, True)"
    by (auto simp: reduce_def split: sum.splits)
  from reduce_loop_last_pass[OF this] obtain pre' where
    ap: "apply_funcs slv (reduce_funcs slv) pre' = Inr r" and
    u: "\<not> unsolvable_units r" and
    cnt: "solved_units_count pre' = solved_units_count r"
    by auto
  note n = apply_funcs_narrows[OF ap]
  have kp: "keys pre' = keys r" using narrows_keys[OF n] by simp
  have "length pre' = length r"
    using n by (auto simp: narrows_def dest: list_all2_lengthD)
  moreover have "solved_units_count r = length r"
    using single assms(2) k by (simp add: all_single_count)
  ultimately have "all_single pre'"
    using cnt kp assms(2) k by (simp add: all_single_count)
  from narrows_single_eq[OF n this single] ap u single k show ?thesis by simp
qed

subsection \<open>Well-formed problems\<close>

text \<open>
  The problem as the spec's data model and both adapters have it: the state has one entry
  for each variable, every unit is made of variables, and every variable has a peer list,
  made of variables, that holds the other members of each unit the variable is in.
\<close>

definition well_formed :: "('v, 'a) solver_scheme \<Rightarrow> bool" where
  "well_formed slv \<longleftrightarrow>
     distinct (keys (internal_state slv)) \<and>
     set (keys (internal_state slv)) = set (X_vars slv) \<and>
     (\<forall>u \<in> set (C_units slv). set u \<subseteq> set (X_vars slv)) \<and>
     (\<forall>x \<in> set (X_vars slv).
        case map_of (peers slv) x of
          None \<Rightarrow> False
        | Some ps \<Rightarrow>
            set ps \<subseteq> set (X_vars slv) \<and>
            (\<forall>u \<in> set (C_units slv). x \<in> set u \<longrightarrow> (\<forall>y \<in> set u. y \<noteq> x \<longrightarrow> y \<in> set ps)))"

lemma solution_peers_differ:
  assumes sol: "solution_of slv st r"
    and "distinct (keys st)" and "set (keys st) = set (X_vars slv)"
    and el: "Eliminate \<in> set (reduce_funcs slv)"
    and x: "x \<in> set (X_vars slv)" and ps: "map_of (peers slv) x = Some ps"
    and p: "p \<in> set ps" "p \<in> set (X_vars slv)"
  shows "map_of r x \<noteq> map_of r p"
proof -
  from solution_fixed_point[OF assms(1-3)] have
    single: "all_single r" and fixed: "apply_funcs slv (reduce_funcs slv) r = Inr r" and
    k: "keys r = keys st"
    by simp_all
  from solution_of_leaf[OF sol] have solved: "all_solved r (X_vars slv) = Inr True"
    by simp
  from all_solved_True[OF solved x] obtain c where c: "map_of r x = Some [c]" ..
  from all_solved_True[OF solved p(2)] obtain c' where c': "map_of r p = Some [c']" ..
  from apply_funcs_fixed[OF fixed single el]
  have e: "eliminate_items (peers slv) (solved_units r) r = Inr r"
    by (simp add: eliminate_def)
  have "x \<in> set (solved_units r)"
    using x c k assms(3) by (simp add: solved_units_def)
  from eliminate_items_fixed[OF e single this c ps p(1) c']
  have "replace_by_empty [c] [c'] = [c']" .
  then have "c \<noteq> c'" by (auto simp: replace_same_char)
  with c c' show ?thesis by simp
qed

lemma well_formed_peer:
  assumes "well_formed slv" and "u \<in> set (C_units slv)" and "x \<in> set u" and "y \<in> set u"
    and "x \<noteq> y"
  shows "x \<in> set (X_vars slv) \<and> y \<in> set (X_vars slv) \<and>
         (\<exists>ps. map_of (peers slv) x = Some ps \<and> y \<in> set ps)"
proof -
  from assms(1-4) have xy: "x \<in> set (X_vars slv)" "y \<in> set (X_vars slv)"
    by (auto simp: well_formed_def)
  from assms(1) xy(1) have
    "case map_of (peers slv) x of
       None \<Rightarrow> False
     | Some ps \<Rightarrow>
         set ps \<subseteq> set (X_vars slv) \<and>
         (\<forall>u \<in> set (C_units slv). x \<in> set u \<longrightarrow> (\<forall>y \<in> set u. y \<noteq> x \<longrightarrow> y \<in> set ps))"
    unfolding well_formed_def by blast
  then obtain ps where ps: "map_of (peers slv) x = Some ps"
    and cover: "\<forall>u \<in> set (C_units slv). x \<in> set u \<longrightarrow> (\<forall>y \<in> set u. y \<noteq> x \<longrightarrow> y \<in> set ps)"
    by (cases "map_of (peers slv) x") auto
  from cover assms(2-5) have "y \<in> set ps" by auto
  with xy ps show ?thesis by simp
qed

subsection \<open>No exception on a well-formed problem\<close>

text \<open>\<open>closed_for slv K\<close>: every key the solver looks up is in \<open>K\<close>.\<close>

definition closed_for :: "('v, 'a) solver_scheme \<Rightarrow> 'v set \<Rightarrow> bool" where
  "closed_for slv K \<longleftrightarrow>
     set (X_vars slv) \<subseteq> K \<and> (\<forall>u \<in> set (C_units slv). set u \<subseteq> K) \<and>
     (\<forall>x \<in> K. \<exists>ps. map_of (peers slv) x = Some ps \<and> set ps \<subseteq> K)"

lemma well_formed_closed: "well_formed slv \<Longrightarrow> closed_for slv (set (keys (internal_state slv)))"
  unfolding well_formed_def closed_for_def
  by (auto split: option.splits)

lemma getitem_ok: "k \<in> set (keys st) \<Longrightarrow> \<exists>v. getitem st k = Inr v"
  by (cases "map_of st k") (auto simp: getitem_def keys_def map_of_eq_None_iff)

lemma assign_value_ok: "k \<in> set (keys st) \<Longrightarrow> \<exists>st'. assign_value st k w = Inr st'"
  using getitem_ok[of k st] by (auto simp: assign_value_def)

lemma assign_value_keys:
  assumes "assign_value st k w = Inr st'"
  shows "keys st' = keys st"
proof -
  from assms obtain v where v: "map_of st k = Some v"
    and st': "st' = (if v \<noteq> w then AList.update k w st else st)"
    by (auto simp: assign_value_def getitem_def split: option.splits)
  from v have "k \<in> fst ` set st"
    by (auto dest: map_of_SomeD intro: rev_image_eqI)
  then have "map fst (AList.update k w st) = map fst st"
    by (simp add: update_keys)
  with st' show ?thesis by (simp add: keys_def)
qed

lemma eliminate_peers_ok:
  "set ps \<subseteq> set (keys st) \<Longrightarrow> \<exists>st'. eliminate_peers val ps st = Inr st'"
proof (induction ps arbitrary: st)
  case Nil
  then show ?case by simp
next
  case (Cons p ps)
  from Cons.prems obtain pv where pv: "getitem st p = Inr pv"
    using getitem_ok[of p st] by auto
  from Cons.prems obtain st1 where a: "assign_value st p (replace_by_empty val pv) = Inr st1"
    using assign_value_ok[of p st] by auto
  have "narrows st st1"
    using a pv by (auto intro!: assign_value_narrows replace_by_empty_sub simp: getitem_Inr)
  then have "keys st1 = keys st" by (rule narrows_keys)
  with Cons.prems have "set ps \<subseteq> set (keys st1)" by simp
  from Cons.IH[OF this] pv a show ?case by auto
qed

lemma eliminate_items_ok:
  "set items \<subseteq> set (keys st) \<Longrightarrow>
   \<forall>x \<in> set (keys st). \<exists>ps. map_of prs x = Some ps \<and> set ps \<subseteq> set (keys st) \<Longrightarrow>
   \<exists>st'. eliminate_items prs items st = Inr st'"
proof (induction items arbitrary: st)
  case Nil
  then show ?case by simp
next
  case (Cons x xs)
  from Cons.prems(1) obtain val where val: "getitem st x = Inr val"
    using getitem_ok[of x st] by auto
  from Cons.prems obtain ps where ps: "getitem prs x = Inr ps" "set ps \<subseteq> set (keys st)"
    by (auto simp: getitem_Inr)
  from eliminate_peers_ok[OF ps(2)] obtain st1 where e: "eliminate_peers val ps st = Inr st1"
    by blast
  have k: "keys st1 = keys st" by (rule narrows_keys[OF eliminate_peers_narrows[OF e]])
  from Cons.IH[of st1] Cons.prems k val ps e show ?case by auto
qed

lemma eliminate_ok:
  assumes "closed_for slv (set (keys st))"
  shows "\<exists>st'. eliminate slv st = Inr st'"
  unfolding eliminate_def
proof (rule eliminate_items_ok)
  show "set (solved_units st) \<subseteq> set (keys st)" by (auto simp: solved_units_def)
  show "\<forall>x \<in> set (keys st). \<exists>ps. map_of (peers slv) x = Some ps \<and> set ps \<subseteq> set (keys st)"
    using assms by (simp add: closed_for_def)
qed

lemma dplaces_ok:
  "set unit \<subseteq> set (keys st) \<Longrightarrow> \<exists>ds. dplaces st c unit = Inr ds \<and> set ds \<subseteq> set unit"
proof (induction unit)
  case Nil
  then show ?case by simp
next
  case (Cons x xs)
  from Cons.prems obtain v where "getitem st x = Inr v"
    using getitem_ok[of x st] by auto
  with Cons show ?case by auto
qed

lemma only_choice_vals_ok:
  "set unit \<subseteq> set (keys st) \<Longrightarrow> \<exists>st'. only_choice_vals unit vals st = Inr st'"
proof (induction vals arbitrary: st)
  case Nil
  then show ?case by simp
next
  case (Cons c cs)
  from dplaces_ok[OF Cons.prems, of c] obtain ds where
    ds: "dplaces st c unit = Inr ds" "set ds \<subseteq> set unit" by blast
  show ?case
  proof (cases "length ds = 1")
    case True
    then have "hd ds \<in> set ds" by (cases ds) auto
    with ds Cons.prems obtain st1 where a: "assign_value st (hd ds) [c] = Inr st1"
      using assign_value_ok[of "hd ds" st] by blast
    have "only_choice_vals unit [c] st = Inr st1"
      using ds True a by simp
    from narrows_keys[OF only_choice_vals_narrows[OF this]] Cons.prems
    have "set unit \<subseteq> set (keys st1)" by simp
    from Cons.IH[OF this] ds True a show ?thesis by auto
  next
    case False
    with Cons.IH[OF Cons.prems] ds show ?thesis by auto
  qed
qed

lemma only_choice_units_ok:
  "\<forall>u \<in> set units. set u \<subseteq> set (keys st) \<Longrightarrow> \<exists>st'. only_choice_units units D st = Inr st'"
proof (induction units arbitrary: st)
  case Nil
  then show ?case by simp
next
  case (Cons u us)
  from Cons.prems obtain st1 where v: "only_choice_vals u D st = Inr st1"
    using only_choice_vals_ok[of u st D] by auto
  from narrows_keys[OF only_choice_vals_narrows[OF v]] Cons.prems
  have "\<forall>u \<in> set us. set u \<subseteq> set (keys st1)" by simp
  from Cons.IH[OF this] v show ?case by auto
qed

lemma pair_values_ok: "set unit \<subseteq> set (keys st) \<Longrightarrow> \<exists>vs. pair_values st unit = Inr vs"
proof (induction unit)
  case Nil
  then show ?case by simp
next
  case (Cons x xs)
  from Cons.prems obtain v where "getitem st x = Inr v"
    using getitem_ok[of x st] by auto
  with Cons show ?case by auto
qed

lemma twins_boxes_ok:
  "set bs \<subseteq> set (keys st) \<Longrightarrow> \<exists>st'. twins_boxes twin num bs st = Inr st'"
proof (induction bs arbitrary: st)
  case Nil
  then show ?case by simp
next
  case (Cons b bs)
  from Cons.prems obtain v where v: "getitem st b = Inr v"
    using getitem_ok[of b st] by auto
  show ?case
  proof (cases "twin \<noteq> v")
    case True
    from Cons.prems obtain st1 where a: "assign_value st b (replace_by_empty [num] v) = Inr st1"
      using assign_value_ok[of b st] by auto
    have "twins_boxes twin num [b] st = Inr st1"
      using v True a by simp
    from narrows_keys[OF twins_boxes_narrows[OF this]] Cons.prems
    have "set bs \<subseteq> set (keys st1)" by simp
    from Cons.IH[OF this] v True a show ?thesis by auto
  next
    case False
    from Cons.prems have "set bs \<subseteq> set (keys st)" by simp
    from Cons.IH[OF this] v False show ?thesis by auto
  qed
qed

lemma twins_nums_ok:
  "set unit \<subseteq> set (keys st) \<Longrightarrow> \<exists>st'. twins_nums twin nums unit st = Inr st'"
proof (induction nums arbitrary: st)
  case Nil
  then show ?case by simp
next
  case (Cons n ns)
  from twins_boxes_ok[OF Cons.prems] obtain st1 where b: "twins_boxes twin n unit st = Inr st1"
    by blast
  from narrows_keys[OF twins_boxes_narrows[OF b]] Cons.prems
  have "set unit \<subseteq> set (keys st1)" by simp
  from Cons.IH[OF this] b show ?case by auto
qed

lemma twins_loop_ok:
  "set unit \<subseteq> set (keys st) \<Longrightarrow> \<exists>st'. twins_loop twins unit st = Inr st'"
proof (induction twins arbitrary: st)
  case Nil
  then show ?case by simp
next
  case (Cons t ts)
  from twins_nums_ok[OF Cons.prems] obtain st1 where b: "twins_nums t t unit st = Inr st1"
    by blast
  from narrows_keys[OF twins_nums_narrows[OF b]] Cons.prems
  have "set unit \<subseteq> set (keys st1)" by simp
  from Cons.IH[OF this] b show ?case by auto
qed

lemma naked_twins_units_ok:
  "\<forall>u \<in> set units. set u \<subseteq> set (keys st) \<Longrightarrow> \<exists>st'. naked_twins_units units st = Inr st'"
proof (induction units arbitrary: st)
  case Nil
  then show ?case by simp
next
  case (Cons u us)
  from Cons.prems have u: "set u \<subseteq> set (keys st)" by simp
  from pair_values_ok[OF u] obtain ap where ap: "pair_values st u = Inr ap" by blast
  from twins_loop_ok[OF u] obtain st1 where t: "twins_loop (twins_of ap) u st = Inr st1"
    by blast
  from narrows_keys[OF twins_loop_narrows[OF t]] Cons.prems
  have "\<forall>u \<in> set us. set u \<subseteq> set (keys st1)" by simp
  from Cons.IH[OF this] ap t show ?case by auto
qed

lemma apply_rule_ok:
  assumes "closed_for slv (set (keys st))"
  shows "\<exists>st'. apply_rule slv f st = Inr st'"
proof (cases f)
  case Eliminate
  with eliminate_ok[OF assms] show ?thesis by simp
next
  case OnlyChoice
  with only_choice_units_ok[of "C_units slv" st "D_vals slv"] assms show ?thesis
    by (simp add: only_choice_def closed_for_def)
next
  case NakedTwins
  with naked_twins_units_ok[of "C_units slv" st] assms show ?thesis
    by (simp add: naked_twins_def closed_for_def)
qed

lemma apply_funcs_ok:
  "closed_for slv (set (keys st)) \<Longrightarrow> \<exists>st'. apply_funcs slv fs st = Inr st'"
proof (induction fs arbitrary: st)
  case Nil
  then show ?case by simp
next
  case (Cons f fs)
  from apply_rule_ok[OF Cons.prems] obtain st1 where r: "apply_rule slv f st = Inr st1"
    by blast
  from narrows_keys[OF apply_rule_narrows[OF r]] Cons.prems
  have "closed_for slv (set (keys st1))" by simp
  from Cons.IH[OF this] r show ?case by auto
qed

lemma reduce_loop_ok:
  "closed_for slv (set (keys st)) \<Longrightarrow> \<exists>res. reduce_loop slv stalled st = Inr res"
proof (induction slv stalled st rule: reduce_loop.induct)
  case (1 slv stalled state)
  show ?case
  proof (cases stalled)
    case True
    then show ?thesis by (auto simp: reduce_loop.simps)
  next
    case False
    from apply_funcs_ok[OF "1.prems"] obtain state1 where
      ap: "apply_funcs slv (reduce_funcs slv) state = Inr state1" by blast
    show ?thesis
    proof (cases "unsolvable_units state1")
      case True
      with False ap have "reduce_loop slv stalled state = Inr (state1, False)"
        by (subst reduce_loop.simps) simp
      then show ?thesis by blast
    next
      case u: False
      from narrows_keys[OF apply_funcs_narrows[OF ap]] "1.prems"
      have "closed_for slv (set (keys state1))" by simp
      from "1.IH"[OF False ap u this] False ap u show ?thesis
        by (subst reduce_loop.simps) simp
    qed
  qed
qed

lemma reduce_ok:
  "closed_for slv (set (keys st)) \<Longrightarrow> \<exists>res. reduce slv st cnt = Inr res"
  using reduce_loop_ok[of slv st False] by (auto simp: reduce_def)


lemma all_solved_ok: "set xs \<subseteq> set (keys st) \<Longrightarrow> \<exists>res. all_solved st xs = Inr res"
proof (induction xs)
  case Nil
  have "all_solved st [] = Inr True" by simp
  then show ?case by blast
next
  case (Cons x xs)
  from Cons.prems obtain v where v: "getitem st x = Inr v"
    using getitem_ok[of x st] by auto
  from Cons obtain res where res: "all_solved st xs = Inr res" by auto
  have "all_solved st (x # xs) = Inr (if length v = 1 then res else False)"
    using v res by simp
  then show ?case by blast
qed

lemma unfilled_ok: "set xs \<subseteq> set (keys st) \<Longrightarrow> \<exists>ps. unfilled st xs = Inr ps"
proof (induction xs)
  case Nil
  then show ?case by simp
next
  case (Cons x xs)
  from Cons.prems obtain v where "getitem st x = Inr v"
    using getitem_ok[of x st] by auto
  with Cons show ?case by auto
qed

lemma all_solved_False:
  "all_solved st xs = Inr False \<Longrightarrow> \<exists>x \<in> set xs. \<exists>v. map_of st x = Some v \<and> length v \<noteq> 1"
  by (induction xs) (auto simp: getitem_Inr split: sum.splits if_splits)

lemma unfilled_complete:
  "unfilled st xs = Inr ps \<Longrightarrow> x \<in> set xs \<Longrightarrow> map_of st x = Some v \<Longrightarrow> 1 < length v \<Longrightarrow>
   (length v, x) \<in> set ps"
  by (induction xs arbitrary: ps) (auto simp: getitem_Inr split: sum.splits if_splits)

lemma unsolvable_units_iff:
  "unsolvable_units st \<longleftrightarrow> (\<exists>k \<in> set (keys st). map_of st k = Some [])"
  by (auto simp: unsolvable_units_def filter_empty_conv split: option.splits)

lemma reduce_True_no_empty:
  "reduce slv st cnt = Inr (st1, True, cnt1) \<Longrightarrow> \<not> unsolvable_units st1"
  by (auto simp: reduce_def split: sum.splits dest: reduce_loop_last_pass)

lemma py_min_ok: "ps \<noteq> [] \<Longrightarrow> \<exists>p. py_min ps = Inr p"
  by (cases ps) auto

lemma choose_ok:
  assumes "reduce slv st cnt = Inr (st1, True, cnt1)" and "set xs \<subseteq> set (keys st1)"
    and "all_solved st1 xs = Inr False"
  shows "\<exists>ps n s vals. unfilled st1 xs = Inr ps \<and> py_min ps = Inr (n, s) \<and>
           getitem st1 s = Inr vals \<and> s \<in> set (keys st1)"
proof -
  from unfilled_ok[OF assms(2)] obtain ps where ps: "unfilled st1 xs = Inr ps" by blast
  from all_solved_False[OF assms(3)] obtain x v where
    x: "x \<in> set xs" "map_of st1 x = Some v" "length v \<noteq> 1" by blast
  have "v \<noteq> []"
    using reduce_True_no_empty[OF assms(1)] x assms(2) by (auto simp: unsolvable_units_iff)
  with x(3) have "1 < length v" by (cases v) auto
  from unfilled_complete[OF ps x(1,2) this] have "ps \<noteq> []" by auto
  from py_min_ok[OF this] obtain n s where m: "py_min ps = Inr (n, s)" by (cases) auto
  from unfilled_member[OF ps py_min_member[OF m]] assms(2) obtain vals where
    "s \<in> set (keys st1)" "getitem st1 s = Inr vals"
    by (auto simp: getitem_Inr)
  with ps m show ?thesis by blast
qed

lemma search_ok_aux:
  "closed_for slv (set (keys st)) \<longrightarrow> (\<exists>res. search slv st cnt = Inr res)"
  "closed_for slv (set (keys st1)) \<and> s \<in> set (keys st1) \<longrightarrow>
     (\<exists>res. search_vals slv st1 s vals cnt = Inr res)"
proof (induction slv st cnt and slv st1 s vals cnt rule: search_search_vals.induct)
  case (1 slv state cnt)
  show ?case
  proof
    assume cl: "closed_for slv (set (keys state))"
    from reduce_ok[OF cl] obtain state1 ok cnt1 where
      red: "reduce slv state cnt = Inr (state1, ok, cnt1)" by (metis prod_cases3)
    have k: "keys state1 = keys state" by (rule narrows_keys[OF reduce_narrows[OF red]])
    with cl have cl1: "closed_for slv (set (keys state1))" by simp
    then have xs: "set (X_vars slv) \<subseteq> set (keys state1)" by (simp add: closed_for_def)
    show "\<exists>res. search slv state cnt = Inr res"
    proof (cases ok)
      case False
      with red show ?thesis by (subst search.simps) simp
    next
      case True
      from all_solved_ok[OF xs] obtain b where b: "all_solved state1 (X_vars slv) = Inr b"
        by blast
      show ?thesis
      proof (cases b)
        case True
        with red \<open>ok\<close> b show ?thesis by (subst search.simps) simp
      next
        case False
        from red \<open>ok\<close> have red': "reduce slv state cnt = Inr (state1, True, cnt1)" by simp
        from b False have b': "all_solved state1 (X_vars slv) = Inr False" by simp
        from choose_ok[OF red' xs b']
        obtain ps n s vals where
          c: "unfilled state1 (X_vars slv) = Inr ps" "py_min ps = Inr (n, s)"
             "getitem state1 s = Inr vals" "s \<in> set (keys state1)"
          by blast
        from "1.IH"[OF red' refl refl _ b' refl c(1) c(2) refl c(3)] cl1 c(4)
        obtain res where "search_vals slv state1 s vals (fst cnt1, Suc (snd cnt1)) = Inr res"
          by auto
        then obtain att c2 where
          "search_vals slv state1 s vals (fst cnt1, Suc (snd cnt1)) = Inr (att, c2)"
          by (cases res) auto
        with red' b' c have "search slv state cnt = Inr (state1, att, c2)"
          by (subst search.simps) simp
        then show ?thesis by blast
      qed
    qed
  qed
next
  case (2 slv state s cnt)
  show ?case by simp
next
  case (3 slv state s val vals cnt)
  show ?case
  proof
    assume a: "closed_for slv (set (keys state)) \<and> s \<in> set (keys state)"
    then obtain new where av: "assign_value state s [val] = Inr new"
      using assign_value_ok[of s state] by blast
    have kn: "keys new = keys state"
      using av by (rule assign_value_keys)
    with a "3.IH"(1)[OF av] obtain m att c1 where se: "search slv new cnt = Inr (m, att, c1)"
      by (metis prod_cases3)
    show "\<exists>res. search_vals slv state s (val # vals) cnt = Inr res"
    proof (cases "truthy att")
      case True
      with av se show ?thesis by simp
    next
      case False
      with "3.IH"(2)[OF av se refl refl False] a av se show ?thesis by auto
    qed
  qed
qed

lemma search_ok:
  "closed_for slv (set (keys st)) \<Longrightarrow> \<exists>res. search slv st cnt = Inr res"
  using search_ok_aux(1) by blast

lemma solve_ok:
  assumes "well_formed slv"
  shows "\<exists>res. solve slv = Inr res"
proof -
  let ?slv0 = "slv\<lparr>reduce_count := 0, search_count := 0\<rparr>"
  have "closed_for ?slv0 (set (keys (internal_state ?slv0)))"
    using well_formed_closed[OF assms] by (simp add: closed_for_def)
  from search_ok[OF this] obtain mut att cnt where
    "search ?slv0 (internal_state ?slv0) (reduce_count ?slv0, search_count ?slv0) =
       Inr (mut, att, cnt)"
    by (metis prod_cases3)
  then show ?thesis
    by (auto simp: solve_def Let_def split: attempt.splits)
qed

lemma child_decreases:
  assumes "reduce slv st cnt = Inr (st1, ok, cnt1)"
    and "unfilled st1 xs = Inr ps" and "py_min ps = Inr (n, s)"
    and "assign_value st1 s [v] = Inr new"
  shows "total_len new < total_len st"
proof -
  from assms(4) obtain vals where "getitem st1 s = Inr vals"
    by (auto simp: assign_value_def split: sum.splits)
  from branch_measure[OF assms(1-3) this] assign_value_single_total_len[OF assms(4)]
  show ?thesis by simp
qed

subsection \<open>What a successful solve returns\<close>

lemma success_within_initial:
  assumes "\<not> solved slv" and "solve slv = Inr (slv', True)" and "x \<in> set (X_vars slv)"
  shows "\<exists>c v0. map_of (internal_state slv') x = Some [c] \<and>
           map_of (internal_state slv) x = Some v0 \<and> c \<in> set v0 \<and>
           (length v0 = 1 \<longrightarrow> v0 = [c])"
proof -
  let ?slv0 = "slv\<lparr>reduce_count := 0, search_count := 0\<rparr>"
  have sol: "solution_of ?slv0 (internal_state slv) (internal_state slv')"
    using assms(1,2) by (rule solve_success_solution_of)
  from solution_of_leaf[OF sol] assms(3) obtain c where
    c: "map_of (internal_state slv') x = Some [c]"
    by (auto dest: all_solved_True)
  from narrows_map_of_rev[OF solution_of_narrows[OF sol] c] obtain v0 where
    v0: "map_of (internal_state slv) x = Some v0" "sub [c] v0"
    by blast
  from v0(2) have "c \<in> set v0" by (simp add: sub_def)
  moreover have "v0 = [c]" if "length v0 = 1"
    using that \<open>c \<in> set v0\<close> by (cases v0) auto
  ultimately show ?thesis using c v0(1) by blast
qed

lemma success_consistent:
  assumes "well_formed slv" and "Eliminate \<in> set (reduce_funcs slv)"
    and "\<not> solved slv" and "solve slv = Inr (slv', True)"
  shows "(\<forall>x \<in> set (X_vars slv). \<exists>c. map_of (internal_state slv') x = Some [c]) \<and>
         (\<forall>u \<in> set (C_units slv). \<forall>x \<in> set u. \<forall>y \<in> set u.
            x \<noteq> y \<longrightarrow> map_of (internal_state slv') x \<noteq> map_of (internal_state slv') y)"
proof -
  let ?slv0 = "slv\<lparr>reduce_count := 0, search_count := 0\<rparr>"
  let ?r = "internal_state slv'"
  have sol: "solution_of ?slv0 (internal_state slv) ?r"
    using assms(3,4) by (rule solve_success_solution_of)
  have d: "distinct (keys (internal_state slv))"
    and k: "set (keys (internal_state slv)) = set (X_vars ?slv0)"
    using assms(1) by (simp_all add: well_formed_def)
  have el: "Eliminate \<in> set (reduce_funcs ?slv0)"
    using assms(2) by simp
  have one: "\<exists>c. map_of ?r x = Some [c]" if "x \<in> set (X_vars slv)" for x
    using solution_of_leaf[OF sol] that by (auto dest: all_solved_True)
  have two: "map_of ?r x \<noteq> map_of ?r y"
    if "u \<in> set (C_units slv)" "x \<in> set u" "y \<in> set u" "x \<noteq> y" for u x y
  proof -
    from well_formed_peer[OF assms(1) that] obtain ps where
      "x \<in> set (X_vars ?slv0)" "y \<in> set (X_vars ?slv0)"
      "map_of (peers ?slv0) x = Some ps" "y \<in> set ps"
      by auto
    from solution_peers_differ[OF sol d k el this(1,3,4,2)] show ?thesis .
  qed
  from one two show ?thesis by blast
qed

subsection \<open>Consistent assignments\<close>

text \<open>
  \<open>consistent slv a\<close>: the assignment \<open>a\<close> gives every variable one of its initial
  candidates and gives different values to different members of a unit.
\<close>

definition consistent :: "('v, 'a) solver_scheme \<Rightarrow> ('v \<Rightarrow> char) \<Rightarrow> bool" where
  "consistent slv a \<longleftrightarrow>
     (\<forall>x \<in> set (X_vars slv).
        case map_of (internal_state slv) x of None \<Rightarrow> False | Some v0 \<Rightarrow> a x \<in> set v0) \<and>
     (\<forall>u \<in> set (C_units slv). \<forall>x \<in> set u. \<forall>y \<in> set u. x \<noteq> y \<longrightarrow> a x \<noteq> a y)"

lemma success_gives_assignment:
  assumes "well_formed slv" and "Eliminate \<in> set (reduce_funcs slv)"
    and "\<not> solved slv" and "solve slv = Inr (slv', True)"
  shows "\<exists>a. consistent slv a"
proof -
  let ?r = "internal_state slv'"
  let ?a = "\<lambda>x. hd (the (map_of ?r x))"
  have within: "case map_of (internal_state slv) x of None \<Rightarrow> False | Some v0 \<Rightarrow> ?a x \<in> set v0"
    if "x \<in> set (X_vars slv)" for x
    using success_within_initial[OF assms(3,4) that] by auto
  have differ: "?a x \<noteq> ?a y"
    if "u \<in> set (C_units slv)" "x \<in> set u" "y \<in> set u" "x \<noteq> y" for u x y
  proof -
    from assms(1) that have "x \<in> set (X_vars slv)" "y \<in> set (X_vars slv)"
      by (auto simp: well_formed_def)
    with success_consistent[OF assms] that
    obtain c c' where "map_of ?r x = Some [c]" "map_of ?r y = Some [c']"
      "map_of ?r x \<noteq> map_of ?r y"
      by blast
    then show ?thesis by auto
  qed
  from within differ have "consistent slv ?a"
    unfolding consistent_def by blast
  then show ?thesis by blast
qed

lemma solve_fails_without_assignment:
  assumes "well_formed slv" and "Eliminate \<in> set (reduce_funcs slv)" and "\<not> solved slv"
    and "\<nexists>a. consistent slv a"
  shows "\<exists>slv'. solve slv = Inr (slv', False)"
proof -
  from solve_ok[OF assms(1)] obtain slv' b where s: "solve slv = Inr (slv', b)"
    by (metis prod.exhaust)
  from success_gives_assignment[OF assms(1-3)] assms(4) s have "\<not> b" by auto
  with s show ?thesis by auto
qed

lemma infeasible_branch_pruned:
  assumes "assign_value st s [v] = Inr new" and "search slv new cnt = Inr (m, PyFalse, cnt1)"
  shows "search_vals slv st s (v # vs) cnt = search_vals slv st s vs cnt1"
  using assms by simp

subsection \<open>Solving a solved state again\<close>







subsection \<open>The propagation engine in the spec's words\<close>

lemma reduce_loop_False_unsolvable:
  "reduce_loop slv stalled st = Inr (st', False) \<Longrightarrow> unsolvable_units st'"
proof (induction slv stalled st rule: reduce_loop.induct)
  case (1 slv stalled state)
  from "1.prems" have ns: "\<not> stalled"
    by (subst (asm) reduce_loop.simps) (auto split: if_splits)
  with "1.prems" obtain state1 where
    ap: "apply_funcs slv (reduce_funcs slv) state = Inr state1"
    by (subst (asm) reduce_loop.simps) (auto split: sum.splits)
  show ?case
  proof (cases "unsolvable_units state1")
    case True
    with "1.prems" ns ap have "st' = state1"
      by (subst (asm) reduce_loop.simps) simp
    with True show ?thesis by simp
  next
    case False
    with "1.prems" ns ap have
      "reduce_loop slv (solved_units_count state = solved_units_count state1) state1 =
         Inr (st', False)"
      by (subst (asm) reduce_loop.simps) simp
    from "1.IH"[OF ns ap False this] show ?thesis .
  qed
qed

text \<open>
  The notions of section 4.2 of the spec, written on the entries of the state and without
  the solver's helper methods: a variable is solved when its candidate string has exactly
  one character, a state is infeasible when some candidate string is empty, and a pass
  applies the rules in the order of the list, each to the state the one before returned.
\<close>

definition spec_solved_count :: "'v state \<Rightarrow> nat" where
  "spec_solved_count st = length (filter (\<lambda>v. length v = 1) (map snd st))"

definition spec_infeasible :: "'v state \<Rightarrow> bool" where
  "spec_infeasible st \<longleftrightarrow> [] \<in> set (map snd st)"

definition spec_pass :: "('v, 'a) solver_scheme \<Rightarrow> rule list \<Rightarrow> 'v state \<Rightarrow> error + 'v state" where
  "spec_pass slv fs st =
     fold (\<lambda>f r. case r of Inl e \<Rightarrow> Inl e | Inr s \<Rightarrow> apply_rule slv f s) fs (Inr st)"

lemma spec_pass_Inl:
  "fold (\<lambda>f r. case r of Inl e \<Rightarrow> Inl e | Inr s \<Rightarrow> apply_rule slv f s) fs (Inl e) = Inl e"
  by (induction fs) simp_all

lemma spec_pass_apply_funcs: "spec_pass slv fs st = apply_funcs slv fs st"
  unfolding spec_pass_def
  by (induction fs arbitrary: st) (simp_all add: spec_pass_Inl split: sum.splits)

lemma spec_solved_count_lens:
  "spec_solved_count st = length (filter (\<lambda>n. n = 1) (map snd (lens st)))"
  by (simp add: spec_solved_count_def lens_def filter_map comp_def)

lemma narrows_spec_count_changed:
  assumes "narrows st st'" and "spec_solved_count st' \<noteq> spec_solved_count st"
  shows "total_len st' < total_len st"
proof (rule ccontr)
  assume "\<not> total_len st' < total_len st"
  with narrows_total_len[OF assms(1)] have "total_len st' = total_len st" by simp
  from narrows_same_lengths[OF assms(1) this] have "lens st' = lens st"
    by (simp add: lens_def)
  with assms(2) show False by (simp add: spec_solved_count_lens)
qed

lemma map_of_entry: "distinct (keys st) \<Longrightarrow> p \<in> set st \<Longrightarrow> map_of st (fst p) = Some (snd p)"
  by (cases p) (simp add: keys_def)

lemma solved_units_entries:
  assumes "distinct (keys st)"
  shows "solved_units st = map fst (filter (\<lambda>p. length (snd p) = 1) st)"
proof -
  have "filter ((\<lambda>item. case map_of st item of Some v \<Rightarrow> length v = 1 | None \<Rightarrow> False) \<circ> fst) st =
        filter (\<lambda>p. length (snd p) = 1) st"
    by (rule filter_cong[OF refl]) (simp add: map_of_entry[OF assms])
  then show ?thesis
    by (simp add: solved_units_def keys_def filter_map)
qed

lemma solved_units_count_spec:
  "distinct (keys st) \<Longrightarrow> solved_units_count st = spec_solved_count st"
  by (simp add: solved_units_count_def solved_units_entries spec_solved_count_def filter_map
      comp_def)

lemma unsolvable_units_spec:
  assumes "distinct (keys st)"
  shows "unsolvable_units st \<longleftrightarrow> spec_infeasible st"
proof
  assume "unsolvable_units st"
  then obtain k where "map_of st k = Some []"
    by (auto simp: unsolvable_units_iff)
  then have "(k, []) \<in> set st" by (rule map_of_SomeD)
  then show "spec_infeasible st"
    by (force simp: spec_infeasible_def)
next
  assume "spec_infeasible st"
  then obtain p where p: "p \<in> set st" "snd p = []"
    by (auto simp: spec_infeasible_def)
  from map_of_entry[OF assms p(1)] p have "map_of st (fst p) = Some []" "fst p \<in> set (keys st)"
    by (simp_all add: keys_def)
  then show "unsolvable_units st"
    by (auto simp: unsolvable_units_iff)
qed

text \<open>
  The loop as the spec words it: the rules are applied one after the other, and the loop
  stops at once, with the infeasible result, when a rule has left a candidate string
  empty; a pass that comes to its end stops the loop when it left the count of solved
  variables as it was.
\<close>

fun spec_rules :: "('v, 'a) solver_scheme \<Rightarrow> rule list \<Rightarrow> 'v state \<Rightarrow> error + ('v state \<times> bool)" where
  "spec_rules slv [] st = Inr (st, True)"
| "spec_rules slv (f # fs) st =
     (case apply_rule slv f st of
        Inl e \<Rightarrow> Inl e
      | Inr st' \<Rightarrow> (if spec_infeasible st' then Inr (st', False) else spec_rules slv fs st'))"

lemma spec_rules_narrows: "spec_rules slv fs st = Inr (st', ok) \<Longrightarrow> narrows st st'"
proof (induction fs arbitrary: st)
  case Nil
  then show ?case by (simp add: narrows_refl)
next
  case (Cons f fs)
  from Cons.prems obtain st1 where b: "apply_rule slv f st = Inr st1"
    by (auto split: sum.splits)
  note n1 = apply_rule_narrows[OF b]
  show ?case
  proof (cases "spec_infeasible st1")
    case True
    with Cons.prems b n1 show ?thesis by simp
  next
    case False
    with Cons.prems b have "spec_rules slv fs st1 = Inr (st', ok)" by simp
    from Cons.IH[OF this] n1 show ?thesis by (rule narrows_trans[rotated])
  qed
qed

function spec_propagate :: "('v, 'a) solver_scheme \<Rightarrow> 'v state \<Rightarrow> error + ('v state \<times> bool)" where
  "spec_propagate slv st =
     (let before = spec_solved_count st in
      case spec_rules slv (reduce_funcs slv) st of
        Inl e \<Rightarrow> Inl e
      | Inr (st', feasible) \<Rightarrow>
          (if \<not> feasible then Inr (st', False)
           else if spec_solved_count st' = before then Inr (st', True)
           else spec_propagate slv st'))"
  by pat_completeness auto
termination
  by (relation "measure (\<lambda>(slv, st). total_len st)")
     (auto dest: spec_rules_narrows narrows_spec_count_changed)

declare spec_propagate.simps [simp del]

text \<open>
  The loop with the test for an empty candidate string made once in each pass, after the
  last rule: the pass in which a string became empty is completed, and it is the last.
\<close>

function propagate_by_pass :: "('v, 'a) solver_scheme \<Rightarrow> 'v state \<Rightarrow> error + ('v state \<times> bool)" where
  "propagate_by_pass slv st =
     (let before = spec_solved_count st in
      case spec_pass slv (reduce_funcs slv) st of
        Inl e \<Rightarrow> Inl e
      | Inr st' \<Rightarrow>
          (if spec_infeasible st' then Inr (st', False)
           else if spec_solved_count st' = before then Inr (st', True)
           else propagate_by_pass slv st'))"
  by pat_completeness auto
termination
  by (relation "measure (\<lambda>(slv, st). total_len st)")
     (auto simp: spec_pass_apply_funcs dest: apply_funcs_narrows narrows_spec_count_changed)

declare propagate_by_pass.simps [simp del]

lemma reduce_loop_by_pass:
  "distinct (keys st) \<Longrightarrow> reduce_loop slv False st = propagate_by_pass slv st"
proof (induction slv st rule: propagate_by_pass.induct)
  case (1 slv st)
  note d = "1.prems"
  show ?case
  proof (cases "apply_funcs slv (reduce_funcs slv) st")
    case (Inl e)
    then show ?thesis
      by (subst reduce_loop.simps, subst propagate_by_pass.simps)
         (simp add: spec_pass_apply_funcs)
  next
    case (Inr st1)
    have k: "keys st1 = keys st" by (rule narrows_keys[OF apply_funcs_narrows[OF Inr]])
    with d have d1: "distinct (keys st1)" by simp
    note cnt = solved_units_count_spec[OF d] solved_units_count_spec[OF d1]
    note emp = unsolvable_units_spec[OF d1]
    show ?thesis
    proof (cases "spec_infeasible st1")
      case True
      with Inr emp show ?thesis
        by (subst reduce_loop.simps, subst propagate_by_pass.simps)
           (simp add: spec_pass_apply_funcs)
    next
      case u: False
      show ?thesis
      proof (cases "spec_solved_count st1 = spec_solved_count st")
        case True
        have "reduce_loop slv True st1 = Inr (st1, True)"
          by (subst reduce_loop.simps) simp
        with Inr u True emp cnt show ?thesis
          by (subst reduce_loop.simps, subst propagate_by_pass.simps)
             (simp add: spec_pass_apply_funcs)
      next
        case False
        from Inr have sp: "spec_pass slv (reduce_funcs slv) st = Inr st1"
          by (simp add: spec_pass_apply_funcs)
        from "1.IH"[OF refl sp u False d1]
        have "reduce_loop slv False st1 = propagate_by_pass slv st1" .
        with Inr u False emp cnt show ?thesis
          by (subst reduce_loop.simps, subst propagate_by_pass.simps)
             (auto simp: spec_pass_apply_funcs)
      qed
    qed
  qed
qed

lemma reduce_loop_last_pass_spec:
  assumes "reduce_loop slv False st = Inr (r, True)" and "distinct (keys st)"
  shows "\<not> spec_infeasible r \<and>
    (\<exists>pre. spec_pass slv (reduce_funcs slv) pre = Inr r \<and>
           spec_solved_count pre = spec_solved_count r)"
  using assms
proof (induction slv st rule: propagate_by_pass.induct)
  case (1 slv st)
  note d = "1.prems"(2)
  from "1.prems"(1) obtain st1 where
    ap: "apply_funcs slv (reduce_funcs slv) st = Inr st1"
    by (subst (asm) reduce_loop.simps) (auto split: sum.splits)
  have k: "keys st1 = keys st" by (rule narrows_keys[OF apply_funcs_narrows[OF ap]])
  with d have d1: "distinct (keys st1)" by simp
  note cnt = solved_units_count_spec[OF d] solved_units_count_spec[OF d1]
  note emp = unsolvable_units_spec[OF d1]
  from "1.prems"(1) ap have u: "\<not> unsolvable_units st1"
    by (subst (asm) reduce_loop.simps) (auto split: if_splits)
  from "1.prems"(1) ap u have rec:
    "reduce_loop slv (solved_units_count st = solved_units_count st1) st1 = Inr (r, True)"
    by (subst (asm) reduce_loop.simps) simp
  from ap have sp: "spec_pass slv (reduce_funcs slv) st = Inr st1"
    by (simp add: spec_pass_apply_funcs)
  show ?case
  proof (cases "spec_solved_count st1 = spec_solved_count st")
    case True
    with rec cnt have "r = st1"
      by (subst (asm) reduce_loop.simps) simp
    with sp True u emp show ?thesis by auto
  next
    case False
    with rec cnt have "reduce_loop slv False st1 = Inr (r, True)" by simp
    from "1.IH"[OF refl sp _ False this d1] u emp show ?thesis by simp
  qed
qed

lemma reduce_loop_False_spec:
  assumes "reduce_loop slv False st = Inr (r, False)" and "distinct (keys st)"
  shows "spec_infeasible r"
proof -
  have "keys r = keys st"
    by (rule narrows_keys[OF reduce_loop_narrows[OF assms(1)]])
  with assms(2) have "distinct (keys r)" by simp
  from unsolvable_units_spec[OF this] reduce_loop_False_unsolvable[OF assms(1)]
  show ?thesis by simp
qed

subsection \<open>Branching\<close>

lemma fold_min_least:
  fixes q :: "'a :: linorder"
  shows "fold (\<lambda>x m. if x < m then x else m) qs q \<le> q \<and>
         (\<forall>x \<in> set qs. fold (\<lambda>x m. if x < m then x else m) qs q \<le> x)"
proof (induction qs arbitrary: q)
  case Nil
  then show ?case by simp
next
  case (Cons y ys)
  let ?q' = "if y < q then y else q"
  from Cons.IH[of ?q'] have
    a: "fold (\<lambda>x m. if x < m then x else m) ys ?q' \<le> ?q'" and
    b: "\<forall>x \<in> set ys. fold (\<lambda>x m. if x < m then x else m) ys ?q' \<le> x"
    by simp_all
  have "?q' \<le> q" "?q' \<le> y" by auto
  with a b show ?case by (auto intro: order_trans)
qed

lemma py_min_least: "py_min ps = Inr p \<Longrightarrow> q \<in> set ps \<Longrightarrow> p \<le> q"
  using fold_min_least by (cases ps) auto

text \<open>
  What a branch can come back with. It succeeded when it returned a state, that is a
  dict that is not empty; False (propagation ran into an empty candidate set), None
  (every value was tried in vain) and the empty dict are what Python's \<open>if attempt:\<close>
  takes for false.
\<close>

lemma truthy_iff: "truthy a \<longleftrightarrow> (\<exists>r. a = PyState r \<and> r \<noteq> [])"
  by (cases a) auto

lemma not_truthy_iff: "\<not> truthy a \<longleftrightarrow> a = PyFalse \<or> a = PyNone \<or> a = PyState []"
  by (cases a) auto

text \<open>
  \<open>tried_in_vain slv st s ws c c'\<close>: starting with the counters \<open>c\<close>, the values
  \<open>ws\<close> were tried one after the other, each on \<open>st\<close> with \<open>s\<close> set to that one
  value; every one of these searches came back with False, None or the empty dict, and the
  counters were \<open>c'\<close> after the last.
\<close>

inductive tried_in_vain ::
  "('v :: linorder, 'a) solver_scheme \<Rightarrow> 'v state \<Rightarrow> 'v \<Rightarrow> string \<Rightarrow> nat \<times> nat \<Rightarrow>
   nat \<times> nat \<Rightarrow> bool"
  for slv st s where
  none: "tried_in_vain slv st s [] c c"
| more: "assign_value st s [w] = Inr new \<Longrightarrow> search slv new c = Inr (m, a, c1) \<Longrightarrow>
         a = PyFalse \<or> a = PyNone \<or> a = PyState [] \<Longrightarrow> tried_in_vain slv st s ws c1 c2 \<Longrightarrow>
         tried_in_vain slv st s (w # ws) c c2"

lemma search_vals_first_success:
  "search_vals slv st s vals cnt = Inr (a, c) \<Longrightarrow>
   ((\<exists>r. a = PyState r \<and> r \<noteq> []) \<and>
      (\<exists>pre v post new m cm. vals = pre @ v # post \<and> tried_in_vain slv st s pre cnt cm \<and>
         assign_value st s [v] = Inr new \<and> search slv new cm = Inr (m, a, c))) \<or>
   (a = PyNone \<and> tried_in_vain slv st s vals cnt c)"
proof (induction vals arbitrary: cnt)
  case Nil
  then show ?case by (simp add: tried_in_vain.none)
next
  case (Cons v vs)
  from Cons.prems obtain new m att c1 where
    av: "assign_value st s [v] = Inr new" and
    se: "search slv new cnt = Inr (m, att, c1)" and
    rest: "if truthy att then a = att \<and> c = c1
           else search_vals slv st s vs c1 = Inr (a, c)"
    by (auto split: sum.splits if_splits)
  show ?case
  proof (cases "truthy att")
    case True
    with rest have eq: "a = att" "c = c1" by simp_all
    from True eq have ok: "\<exists>r. a = PyState r \<and> r \<noteq> []" by (simp add: truthy_iff)
    have "v # vs = [] @ v # vs \<and> tried_in_vain slv st s [] cnt cnt \<and>
         assign_value st s [v] = Inr new \<and> search slv new cnt = Inr (m, a, c)"
      using av se eq by (simp add: tried_in_vain.none)
    then have "\<exists>pre v' post new m cm. v # vs = pre @ v' # post \<and>
         tried_in_vain slv st s pre cnt cm \<and>
         assign_value st s [v'] = Inr new \<and> search slv new cm = Inr (m, a, c)"
      by blast
    with ok show ?thesis by blast
  next
    case False
    then have f: "att = PyFalse \<or> att = PyNone \<or> att = PyState []"
      by (simp add: not_truthy_iff)
    from False rest have sv: "search_vals slv st s vs c1 = Inr (a, c)" by simp
    from Cons.IH[OF sv] show ?thesis
    proof
      assume "(\<exists>r. a = PyState r \<and> r \<noteq> []) \<and>
        (\<exists>pre v post new m cm. vs = pre @ v # post \<and> tried_in_vain slv st s pre c1 cm \<and>
           assign_value st s [v] = Inr new \<and> search slv new cm = Inr (m, a, c))"
      then obtain pre v' post new' m' cm where
        ok: "\<exists>r. a = PyState r \<and> r \<noteq> []" and
        p: "vs = pre @ v' # post" "tried_in_vain slv st s pre c1 cm"
          "assign_value st s [v'] = Inr new'" "search slv new' cm = Inr (m', a, c)"
        by blast
      from tried_in_vain.more[OF av se f p(2)] p
      have "v # vs = (v # pre) @ v' # post \<and> tried_in_vain slv st s (v # pre) cnt cm \<and>
         assign_value st s [v'] = Inr new' \<and> search slv new' cm = Inr (m', a, c)"
        by simp
      then have "\<exists>pre v' post new m cm. v # vs = pre @ v' # post \<and>
         tried_in_vain slv st s pre cnt cm \<and>
         assign_value st s [v'] = Inr new \<and> search slv new cm = Inr (m, a, c)"
        by blast
      with ok show ?thesis by blast
    next
      assume "a = PyNone \<and> tried_in_vain slv st s vs c1 c"
      with tried_in_vain.more[OF av se f] show ?thesis by simp
    qed
  qed
qed

lemma search_branch_eq:
  assumes "reduce slv st cnt = Inr (st1, True, cnt1)" and "all_solved st1 (X_vars slv) = Inr False"
    and "unfilled st1 (X_vars slv) = Inr ps" and "py_min ps = Inr (n, s)"
    and "getitem st1 s = Inr vals"
  shows "search slv st cnt =
    (case search_vals slv st1 s vals (fst cnt1, Suc (snd cnt1)) of
       Inl e \<Rightarrow> Inl e
     | Inr (a, c) \<Rightarrow> Inr (st1, a, c))"
  using assms by (subst search.simps) simp

lemma chosen_is_least:
  assumes "unfilled st1 xs = Inr ps" and "py_min ps = Inr (n, s)"
  shows "s \<in> set xs \<and> (\<exists>vals. map_of st1 s = Some vals \<and> n = length vals \<and> 1 < n) \<and>
    (\<forall>x \<in> set xs. \<forall>v. map_of st1 x = Some v \<longrightarrow> 1 < length v \<longrightarrow>
       n < length v \<or> (n = length v \<and> s \<le> x))"
proof -
  from unfilled_member[OF assms(1) py_min_member[OF assms(2)]]
  have a: "s \<in> set xs \<and> (\<exists>vals. map_of st1 s = Some vals \<and> n = length vals \<and> 1 < n)"
    by auto
  have "n < length v \<or> (n = length v \<and> s \<le> x)"
    if "x \<in> set xs" "map_of st1 x = Some v" "1 < length v" for x v
  proof -
    from unfilled_complete[OF assms(1) that] have "(length v, x) \<in> set ps" .
    from py_min_least[OF assms(2) this] show ?thesis by auto
  qed
  with a show ?thesis by blast
qed

lemma assign_value_single:
  assumes "assign_value st s [v] = Inr new"
  shows "map_of new = (map_of st)(s \<mapsto> [v]) \<and> keys new = keys st"
proof -
  from assms obtain v0 where v0: "map_of st s = Some v0"
    and new: "new = (if v0 \<noteq> [v] then AList.update s [v] st else st)"
    by (auto simp: assign_value_def getitem_def split: option.splits)
  have "map_of new = (map_of st)(s \<mapsto> [v])"
    using v0 new by (auto simp: update_conv' fun_upd_idem_iff)
  with assign_value_keys[OF assms] show ?thesis by simp
qed

subsection \<open>Propagation keeps every consistent assignment\<close>

text \<open>
  \<open>fits a st\<close>: the assignment \<open>a\<close> gives every variable of the state one of its
  candidates. \<open>obeys slv a\<close>: no variable has the value of one of its peers, and on
  every unit \<open>a\<close> is one-to-one and takes every symbol of the alphabet.
\<close>

definition fits :: "('v \<Rightarrow> char) \<Rightarrow> 'v state \<Rightarrow> bool" where
  "fits a st \<longleftrightarrow> (\<forall>k v. map_of st k = Some v \<longrightarrow> a k \<in> set v)"

definition obeys :: "('v, 'a) solver_scheme \<Rightarrow> ('v \<Rightarrow> char) \<Rightarrow> bool" where
  "obeys slv a \<longleftrightarrow>
     (\<forall>x \<in> set (X_vars slv). \<forall>ps. map_of (peers slv) x = Some ps \<longrightarrow>
        (\<forall>p \<in> set ps. a p \<noteq> a x)) \<and>
     (\<forall>u \<in> set (C_units slv). distinct u \<and> inj_on a (set u) \<and>
        (\<forall>c \<in> set (D_vals slv). \<exists>m \<in> set u. a m = c))"

lemma fits_no_empty:
  assumes "fits a st"
  shows "\<not> unsolvable_units st"
proof
  assume "unsolvable_units st"
  then obtain k where "map_of st k = Some []"
    by (auto simp: unsolvable_units_iff)
  with assms have "a k \<in> set []" unfolding fits_def by blast
  then show False by simp
qed

lemma replace_char_filter: "replace_by_empty [c] s = filter (\<lambda>x. x \<noteq> c) s"
proof (induction s)
  case Nil
  show ?case by (subst replace_by_empty.simps) simp
next
  case (Cons x xs)
  show ?case
  proof (cases "x = c")
    case True
    then have "replace_by_empty [c] (x # xs) = replace_by_empty [c] xs"
      by (subst replace_by_empty.simps) simp
    with Cons True show ?thesis by simp
  next
    case False
    then have "replace_by_empty [c] (x # xs) = x # replace_by_empty [c] xs"
      by (subst replace_by_empty.simps) simp
    with Cons False show ?thesis by simp
  qed
qed

lemma replace_nothing: "replace_by_empty [] s = s"
  by (subst replace_by_empty.simps) simp

lemma assign_value_map_of:
  assumes "assign_value st k w = Inr st'"
  shows "map_of st' = (map_of st)(k \<mapsto> w)"
proof -
  from assms obtain v0 where v0: "map_of st k = Some v0"
    and new: "st' = (if v0 \<noteq> w then AList.update k w st else st)"
    by (auto simp: assign_value_def getitem_def split: option.splits)
  show ?thesis
    using v0 new by (auto simp: update_conv' fun_upd_idem_iff)
qed

lemma fits_assign:
  assumes "fits a st" and "assign_value st k w = Inr st'" and "a k \<in> set w"
  shows "fits a st'"
  using assms(1,3) unfolding fits_def assign_value_map_of[OF assms(2)] by auto

lemma eliminate_peers_fits:
  assumes "fits a st" and "val = [] \<or> (\<exists>c. val = [c] \<and> (\<forall>p \<in> set ps. a p \<noteq> c))"
    and "eliminate_peers val ps st = Inr st'"
  shows "fits a st'"
  using assms
proof (induction ps arbitrary: st)
  case Nil
  then show ?case by simp
next
  case (Cons p ps)
  from Cons.prems(3) obtain pv st1 where
    pv: "map_of st p = Some pv" and
    av: "assign_value st p (replace_by_empty val pv) = Inr st1" and
    r: "eliminate_peers val ps st1 = Inr st'"
    by (auto simp: getitem_Inr split: sum.splits)
  from Cons.prems(1) pv have ap: "a p \<in> set pv" by (simp add: fits_def)
  have "a p \<in> set (replace_by_empty val pv)"
  proof (cases "val = []")
    case True
    with ap show ?thesis by (simp add: replace_nothing)
  next
    case False
    with Cons.prems(2) obtain c where "val = [c]" "a p \<noteq> c" by auto
    with ap show ?thesis by (simp add: replace_char_filter)
  qed
  from fits_assign[OF Cons.prems(1) av this] have f1: "fits a st1" .
  from Cons.prems(2) have "val = [] \<or> (\<exists>c. val = [c] \<and> (\<forall>p \<in> set ps. a p \<noteq> c))"
    by auto
  from Cons.IH[OF f1 this r] show ?case .
qed

lemma eliminate_items_fits:
  assumes "fits a st"
    and "\<forall>x \<in> set items. x \<in> set X \<and> (\<exists>v. map_of st x = Some v \<and> length v \<le> 1)"
    and "\<forall>x \<in> set X. \<forall>ps. map_of prs x = Some ps \<longrightarrow> (\<forall>p \<in> set ps. a p \<noteq> a x)"
    and "eliminate_items prs items st = Inr st'"
  shows "fits a st'"
  using assms(1,2,4)
proof (induction items arbitrary: st)
  case Nil
  then show ?case by simp
next
  case (Cons item items)
  from Cons.prems(3) obtain val ps st1 where
    val: "map_of st item = Some val" and ps: "map_of prs item = Some ps" and
    e: "eliminate_peers val ps st = Inr st1" and
    r: "eliminate_items prs items st1 = Inr st'"
    by (auto simp: getitem_Inr split: sum.splits)
  from Cons.prems(2) val have x: "item \<in> set X" and len: "length val \<le> 1" by auto
  from Cons.prems(1) val have "a item \<in> set val" by (simp add: fits_def)
  with len have v: "val = [a item]" by (cases val) auto
  from assms(3) x ps have "\<forall>p \<in> set ps. a p \<noteq> a item" by blast
  with v have "val = [] \<or> (\<exists>c. val = [c] \<and> (\<forall>p \<in> set ps. a p \<noteq> c))" by blast
  from eliminate_peers_fits[OF Cons.prems(1) this e] have f1: "fits a st1" .
  have "\<forall>x \<in> set items. x \<in> set X \<and> (\<exists>v. map_of st1 x = Some v \<and> length v \<le> 1)"
  proof
    fix y assume y: "y \<in> set items"
    with Cons.prems(2) obtain w where w: "y \<in> set X" "map_of st y = Some w" "length w \<le> 1"
      by auto
    from narrows_map_of[OF eliminate_peers_narrows[OF e] w(2)] obtain w' where
      "map_of st1 y = Some w'" "sub w' w" by blast
    with w show "y \<in> set X \<and> (\<exists>v. map_of st1 y = Some v \<and> length v \<le> 1)"
      by (auto simp: sub_def)
  qed
  from Cons.IH[OF f1 this r] show ?case .
qed

lemma eliminate_fits:
  assumes "fits a st" and "obeys slv a" and "set (keys st) \<subseteq> set (X_vars slv)"
    and "eliminate slv st = Inr st'"
  shows "fits a st'"
proof -
  have items: "\<forall>x \<in> set (solved_units st).
      x \<in> set (X_vars slv) \<and> (\<exists>v. map_of st x = Some v \<and> length v \<le> 1)"
    using assms(3) by (auto simp: solved_units_def split: option.splits)
  from assms(2) have prs: "\<forall>x \<in> set (X_vars slv). \<forall>ps. map_of (peers slv) x = Some ps \<longrightarrow>
      (\<forall>p \<in> set ps. a p \<noteq> a x)"
    by (simp add: obeys_def)
  from eliminate_items_fits[OF assms(1) items prs] assms(4) show ?thesis
    by (simp add: eliminate_def)
qed

lemma dplaces_complete:
  "dplaces st c unit = Inr ds \<Longrightarrow> m \<in> set unit \<Longrightarrow>
   \<exists>v. map_of st m = Some v \<and> (c \<in> set v \<longrightarrow> m \<in> set ds)"
  by (induction unit arbitrary: ds) (auto simp: getitem_Inr split: sum.splits if_splits)

lemma only_choice_vals_fits:
  assumes "fits a st" and "\<forall>c \<in> set vals. \<exists>m \<in> set unit. a m = c"
    and "only_choice_vals unit vals st = Inr st'"
  shows "fits a st'"
  using assms
proof (induction vals arbitrary: st)
  case Nil
  then show ?case by simp
next
  case (Cons c vals)
  from Cons.prems(3) obtain ds where ds: "dplaces st c unit = Inr ds"
    by (auto split: sum.splits)
  from Cons.prems(2) have rest: "\<forall>c \<in> set vals. \<exists>m \<in> set unit. a m = c" by simp
  show ?case
  proof (cases "length ds = 1")
    case True
    with Cons.prems(3) ds obtain st1 where
      av: "assign_value st (hd ds) [c] = Inr st1" and
      r: "only_choice_vals unit vals st1 = Inr st'"
      by (auto split: sum.splits)
    from True obtain d where d: "ds = [d]" by (cases ds) auto
    from Cons.prems(2) obtain m where m: "m \<in> set unit" "a m = c" by auto
    from dplaces_complete[OF ds m(1)] obtain v where
      v: "map_of st m = Some v" "c \<in> set v \<longrightarrow> m \<in> set ds" by blast
    from Cons.prems(1) v(1) m(2) have "c \<in> set v" by (auto simp: fits_def)
    with v(2) d have "m = d" by simp
    with m(2) d have "a (hd ds) \<in> set [c]" by simp
    from fits_assign[OF Cons.prems(1) av this] have "fits a st1" .
    from Cons.IH[OF this rest r] show ?thesis .
  next
    case False
    with Cons.prems(3) ds have "only_choice_vals unit vals st = Inr st'" by simp
    from Cons.IH[OF Cons.prems(1) rest this] show ?thesis .
  qed
qed

lemma only_choice_units_fits:
  assumes "fits a st" and "\<forall>u \<in> set units. \<forall>c \<in> set D. \<exists>m \<in> set u. a m = c"
    and "only_choice_units units D st = Inr st'"
  shows "fits a st'"
  using assms
proof (induction units arbitrary: st)
  case Nil
  then show ?case by simp
next
  case (Cons u units)
  from Cons.prems(3) obtain st1 where
    v: "only_choice_vals u D st = Inr st1" and r: "only_choice_units units D st1 = Inr st'"
    by (auto split: sum.splits)
  from Cons.prems(2) have "\<forall>c \<in> set D. \<exists>m \<in> set u. a m = c" by simp
  from only_choice_vals_fits[OF Cons.prems(1) this v] have f1: "fits a st1" .
  from Cons.prems(2) have "\<forall>u \<in> set units. \<forall>c \<in> set D. \<exists>m \<in> set u. a m = c" by simp
  from Cons.IH[OF f1 this r] show ?case .
qed

lemma only_choice_fits:
  assumes "fits a st" and "obeys slv a" and "only_choice slv st = Inr st'"
  shows "fits a st'"
proof -
  from assms(2) have "\<forall>u \<in> set (C_units slv). \<forall>c \<in> set (D_vals slv). \<exists>m \<in> set u. a m = c"
    by (simp add: obeys_def)
  from only_choice_units_fits[OF assms(1) this] assms(3) show ?thesis
    by (simp add: only_choice_def)
qed

text \<open>
  Naked twins. In a unit whose members are distinct and get different values, two boxes
  with the same two candidates take these two values between them; so no other box of
  the unit has one of them, and the boxes of a twin are not touched while the unit is
  worked on.
\<close>

lemma pair_values_eq:
  "pair_values st u = Inr vs \<Longrightarrow>
   vs = map (\<lambda>b. the (map_of st b)) (filter (\<lambda>b. length (the (map_of st b)) = 2) u) \<and>
   (\<forall>b \<in> set u. \<exists>v. map_of st b = Some v)"
  by (induction u arbitrary: vs) (auto simp: getitem_Inr split: sum.splits if_splits)

lemma count_list_map_filter: "count_list (map f xs) y = length (filter (\<lambda>x. f x = y) xs)"
  by (induction xs) auto

lemma distinct_length_2: "distinct xs \<Longrightarrow> length xs = 2 \<Longrightarrow> \<exists>x y. xs = [x, y] \<and> x \<noteq> y"
  by (cases xs; cases "tl xs") auto

lemma twin_boxes_exist:
  assumes "pair_values st u = Inr ps" and "tw \<in> set (twins_of ps)" and "distinct u"
  shows "length tw = 2 \<and>
    (\<exists>t1 t2. t1 \<in> set u \<and> t2 \<in> set u \<and> t1 \<noteq> t2 \<and>
       map_of st t1 = Some tw \<and> map_of st t2 = Some tw)"
proof -
  let ?f = "\<lambda>b. the (map_of st b)"
  let ?F = "filter (\<lambda>b. ?f b = tw) (filter (\<lambda>b. length (?f b) = 2) u)"
  from pair_values_eq[OF assms(1)] have
    ps: "ps = map ?f (filter (\<lambda>b. length (?f b) = 2) u)" and
    all: "\<forall>b \<in> set u. \<exists>v. map_of st b = Some v"
    by simp_all
  from assms(2) have "count_list ps tw = 2" by (simp add: twins_of_def)
  then have len: "length ?F = 2"
    unfolding ps count_list_map_filter .
  have "distinct ?F" using assms(3) by simp
  from distinct_length_2[OF this len] obtain t1 t2 where F: "?F = [t1, t2]" "t1 \<noteq> t2"
    by blast
  have mem: "t \<in> set u \<and> length tw = 2 \<and> map_of st t = Some tw" if "t \<in> set ?F" for t
  proof -
    from that have t: "t \<in> set u" "?f t = tw" "length (?f t) = 2" by auto
    from all t(1) obtain v where "map_of st t = Some v" by blast
    with t show ?thesis by simp
  qed
  have "t1 \<in> set ?F" "t2 \<in> set ?F" unfolding F by simp_all
  from mem[OF this(1)] mem[OF this(2)] F(2) show ?thesis by blast
qed

definition twins_taken :: "('v \<Rightarrow> char) \<Rightarrow> 'v state \<Rightarrow> string list \<Rightarrow> 'v list \<Rightarrow> bool" where
  "twins_taken a st0 twins u \<longleftrightarrow>
     (\<forall>tw \<in> set twins. \<forall>num \<in> set tw. \<exists>t \<in> set u. map_of st0 t = Some tw \<and> a t = num)"

definition twins_kept :: "'v state \<Rightarrow> string list \<Rightarrow> 'v list \<Rightarrow> 'v state \<Rightarrow> bool" where
  "twins_kept st0 twins u st \<longleftrightarrow>
     (\<forall>tw \<in> set twins. \<forall>b \<in> set u. map_of st0 b = Some tw \<longrightarrow> map_of st b = Some tw)"

lemma twins_are_taken:
  assumes "fits a st" and "inj_on a (set u)" and "distinct u"
    and "pair_values st u = Inr ps"
  shows "twins_taken a st (twins_of ps) u"
  unfolding twins_taken_def
proof (intro ballI)
  fix tw num
  assume tw: "tw \<in> set (twins_of ps)" and num: "num \<in> set tw"
  from twin_boxes_exist[OF assms(4) tw assms(3)] obtain t1 t2 where
    len: "length tw = 2" and
    t: "t1 \<in> set u" "t2 \<in> set u" "t1 \<noteq> t2" "map_of st t1 = Some tw" "map_of st t2 = Some tw"
    by blast
  from assms(1) t(4,5) have in_tw: "a t1 \<in> set tw" "a t2 \<in> set tw"
    by (auto simp: fits_def)
  from assms(2) t(1-3) have ne: "a t1 \<noteq> a t2" by (auto dest: inj_onD)
  from len obtain x y where xy: "tw = [x, y]"
    by (cases tw; cases "tl tw") auto
  with in_tw ne num have "num = a t1 \<or> num = a t2" by auto
  with t show "\<exists>t \<in> set u. map_of st t = Some tw \<and> a t = num" by blast
qed

lemma twins_boxes_fits:
  assumes taken: "twins_taken a st0 twins u" and inj: "inj_on a (set u)"
    and tw: "tw \<in> set twins" and num: "num \<in> set tw"
  shows "fits a st \<Longrightarrow> twins_kept st0 twins u st \<Longrightarrow> set bs \<subseteq> set u \<Longrightarrow>
    twins_boxes tw num bs st = Inr st' \<Longrightarrow> fits a st' \<and> twins_kept st0 twins u st'"
proof (induction bs arbitrary: st)
  case Nil
  then show ?case by simp
next
  case (Cons b bs)
  from Cons.prems(4) obtain v where v: "map_of st b = Some v"
    by (auto simp: getitem_Inr split: sum.splits)
  from Cons.prems(3) have b: "b \<in> set u" and bs: "set bs \<subseteq> set u" by simp_all
  show ?case
  proof (cases "tw \<noteq> v")
    case False
    with Cons.prems(4) v have "twins_boxes tw num bs st = Inr st'"
      by (simp add: getitem_def)
    from Cons.IH[OF Cons.prems(1,2) bs this] show ?thesis .
  next
    case True
    with Cons.prems(4) v obtain st1 where
      av: "assign_value st b (replace_by_empty [num] v) = Inr st1" and
      r: "twins_boxes tw num bs st1 = Inr st'"
      by (auto simp: getitem_def split: sum.splits)
    note m1 = assign_value_map_of[OF av]
    from taken tw num obtain t where
      t: "t \<in> set u" "map_of st0 t = Some tw" "a t = num"
      unfolding twins_taken_def by blast
    have other: "b \<noteq> t"
    proof
      assume "b = t"
      with t(2) Cons.prems(2) tw b have "map_of st b = Some tw"
        unfolding twins_kept_def by blast
      with v True show False by simp
    qed
    with inj b t(1,3) have "a b \<noteq> num" by (auto dest: inj_onD)
    moreover from Cons.prems(1) v have "a b \<in> set v" by (simp add: fits_def)
    ultimately have "a b \<in> set (replace_by_empty [num] v)"
      by (simp add: replace_char_filter)
    from fits_assign[OF Cons.prems(1) av this] have f1: "fits a st1" .
    have k1: "twins_kept st0 twins u st1"
      unfolding twins_kept_def
    proof (intro ballI impI)
      fix tw' b'
      assume tw': "tw' \<in> set twins" and b': "b' \<in> set u" and s0: "map_of st0 b' = Some tw'"
      from Cons.prems(2) tw' b' s0 have cur: "map_of st b' = Some tw'"
        unfolding twins_kept_def by blast
      show "map_of st1 b' = Some tw'"
      proof (cases "b' = b")
        case False
        with cur show ?thesis by (simp add: m1)
      next
        case same: True
        with cur v have vtw: "v = tw'" by simp
        have "num \<notin> set tw'"
        proof
          assume "num \<in> set tw'"
          with taken tw' obtain t' where
            t': "t' \<in> set u" "map_of st0 t' = Some tw'" "a t' = num"
            unfolding twins_taken_def by blast
          from inj t(1,3) t'(1,3) have "t' = t" by (auto dest: inj_onD)
          with t(2) t'(2) have "tw' = tw" by simp
          with vtw True show False by simp
        qed
        then have "replace_by_empty [num] v = tw'"
          unfolding vtw replace_char_filter by (auto simp: filter_id_conv)
        with same show ?thesis by (simp add: m1)
      qed
    qed
    from Cons.IH[OF f1 k1 bs r] show ?thesis .
  qed
qed

lemma twins_nums_fits:
  assumes taken: "twins_taken a st0 twins u" and inj: "inj_on a (set u)"
    and tw: "tw \<in> set twins"
  shows "fits a st \<Longrightarrow> twins_kept st0 twins u st \<Longrightarrow> set nums \<subseteq> set tw \<Longrightarrow>
    twins_nums tw nums u st = Inr st' \<Longrightarrow> fits a st' \<and> twins_kept st0 twins u st'"
proof (induction nums arbitrary: st)
  case Nil
  then show ?case by simp
next
  case (Cons num nums)
  from Cons.prems(4) obtain st1 where
    b: "twins_boxes tw num u st = Inr st1" and r: "twins_nums tw nums u st1 = Inr st'"
    by (auto split: sum.splits)
  from Cons.prems(3) have num: "num \<in> set tw" and nums: "set nums \<subseteq> set tw" by simp_all
  from twins_boxes_fits[OF taken inj tw num Cons.prems(1,2) subset_refl b]
  have "fits a st1" "twins_kept st0 twins u st1" by simp_all
  from Cons.IH[OF this nums r] show ?case .
qed

lemma twins_loop_fits:
  assumes taken: "twins_taken a st0 twins u" and inj: "inj_on a (set u)"
  shows "fits a st \<Longrightarrow> twins_kept st0 twins u st \<Longrightarrow> set tws \<subseteq> set twins \<Longrightarrow>
    twins_loop tws u st = Inr st' \<Longrightarrow> fits a st' \<and> twins_kept st0 twins u st'"
proof (induction tws arbitrary: st)
  case Nil
  then show ?case by simp
next
  case (Cons tw tws)
  from Cons.prems(4) obtain st1 where
    n: "twins_nums tw tw u st = Inr st1" and r: "twins_loop tws u st1 = Inr st'"
    by (auto split: sum.splits)
  from Cons.prems(3) have tw: "tw \<in> set twins" and tws: "set tws \<subseteq> set twins" by simp_all
  from twins_nums_fits[OF taken inj tw Cons.prems(1,2) subset_refl n]
  have "fits a st1" "twins_kept st0 twins u st1" by simp_all
  from Cons.IH[OF this tws r] show ?case .
qed

lemma naked_twins_units_fits:
  assumes "fits a st" and "\<forall>u \<in> set units. distinct u \<and> inj_on a (set u)"
    and "naked_twins_units units st = Inr st'"
  shows "fits a st'"
  using assms
proof (induction units arbitrary: st)
  case Nil
  then show ?case by simp
next
  case (Cons u units)
  from Cons.prems(3) obtain ps st1 where
    ps: "pair_values st u = Inr ps" and
    l: "twins_loop (twins_of ps) u st = Inr st1" and
    r: "naked_twins_units units st1 = Inr st'"
    by (auto split: sum.splits)
  from Cons.prems(2) have u: "distinct u" "inj_on a (set u)" by simp_all
  note taken = twins_are_taken[OF Cons.prems(1) u(2) u(1) ps]
  have kept: "twins_kept st (twins_of ps) u st" by (simp add: twins_kept_def)
  from twins_loop_fits[OF taken u(2) Cons.prems(1) kept subset_refl l]
  have f1: "fits a st1" by simp
  from Cons.prems(2) have "\<forall>u \<in> set units. distinct u \<and> inj_on a (set u)" by simp
  from Cons.IH[OF f1 this r] show ?case .
qed

lemma naked_twins_fits:
  assumes "fits a st" and "obeys slv a" and "naked_twins slv st = Inr st'"
  shows "fits a st'"
proof -
  from assms(2) have "\<forall>u \<in> set (C_units slv). distinct u \<and> inj_on a (set u)"
    by (simp add: obeys_def)
  from naked_twins_units_fits[OF assms(1) this] assms(3) show ?thesis
    by (simp add: naked_twins_def)
qed

lemma apply_rule_fits:
  assumes "fits a st" and "obeys slv a" and "set (keys st) \<subseteq> set (X_vars slv)"
    and "apply_rule slv f st = Inr st'"
  shows "fits a st'"
proof (cases f)
  case Eliminate
  with assms(4) have "eliminate slv st = Inr st'" by simp
  from eliminate_fits[OF assms(1-3) this] show ?thesis .
next
  case OnlyChoice
  with assms(4) have "only_choice slv st = Inr st'" by simp
  from only_choice_fits[OF assms(1,2) this] show ?thesis .
next
  case NakedTwins
  with assms(4) have "naked_twins slv st = Inr st'" by simp
  from naked_twins_fits[OF assms(1,2) this] show ?thesis .
qed

lemma apply_funcs_fits:
  assumes "fits a st" and "obeys slv a" and "set (keys st) \<subseteq> set (X_vars slv)"
    and "apply_funcs slv fs st = Inr st'"
  shows "fits a st'"
  using assms(1,3,4)
proof (induction fs arbitrary: st)
  case Nil
  then show ?case by simp
next
  case (Cons f fs)
  from Cons.prems(3) obtain st1 where
    b: "apply_rule slv f st = Inr st1" and r: "apply_funcs slv fs st1 = Inr st'"
    by (auto split: sum.splits)
  from apply_rule_fits[OF Cons.prems(1) assms(2) Cons.prems(2) b] have f1: "fits a st1" .
  have "keys st1 = keys st" by (rule narrows_keys[OF apply_rule_narrows[OF b]])
  with Cons.prems(2) have "set (keys st1) \<subseteq> set (X_vars slv)" by simp
  from Cons.IH[OF f1 this r] show ?case .
qed

lemma reduce_loop_fits:
  "reduce_loop slv stalled st = Inr (st', ok) \<Longrightarrow> fits a st \<Longrightarrow>
   set (keys st) \<subseteq> set (X_vars slv) \<Longrightarrow> obeys slv a \<Longrightarrow> ok \<and> fits a st'"
proof (induction slv stalled st rule: reduce_loop.induct)
  case (1 slv stalled state)
  note ob = "1.prems"(4)
  show ?case
  proof (cases stalled)
    case True
    with "1.prems"(1,2) show ?thesis
      by (simp add: reduce_loop.simps)
  next
    case False
    with "1.prems"(1) obtain state1 where
      ap: "apply_funcs slv (reduce_funcs slv) state = Inr state1"
      by (subst (asm) reduce_loop.simps) (auto split: sum.splits)
    from apply_funcs_fits[OF "1.prems"(2) ob "1.prems"(3) ap] have f1: "fits a state1" .
    then have u: "\<not> unsolvable_units state1" by (rule fits_no_empty)
    have "keys state1 = keys state" by (rule narrows_keys[OF apply_funcs_narrows[OF ap]])
    with "1.prems"(3) have k1: "set (keys state1) \<subseteq> set (X_vars slv)" by simp
    from "1.prems"(1) False ap u have
      "reduce_loop slv (solved_units_count state = solved_units_count state1) state1 =
         Inr (st', ok)"
      by (subst (asm) reduce_loop.simps) simp
    from "1.IH"[OF False ap u this f1 k1 ob] show ?thesis .
  qed
qed

lemma search_complete_aux:
  "closed_for slv (set (keys st)) \<and> set (keys st) = set (X_vars slv) \<and> X_vars slv \<noteq> [] \<and>
   obeys slv a \<and> fits a st \<longrightarrow>
     (\<exists>res. search slv st cnt = Inr res \<and> truthy (fst (snd res)))"
  "closed_for slv (set (keys st1)) \<and> set (keys st1) = set (X_vars slv) \<and> X_vars slv \<noteq> [] \<and>
   obeys slv a \<and> fits a st1 \<and> s \<in> set (keys st1) \<and> a s \<in> set vals \<longrightarrow>
     (\<exists>res. search_vals slv st1 s vals cnt = Inr res \<and> truthy (fst res))"
proof (induction slv st cnt and slv st1 s vals cnt rule: search_search_vals.induct)
  case (1 slv state cnt)
  show ?case
  proof
    assume h: "closed_for slv (set (keys state)) \<and> set (keys state) = set (X_vars slv) \<and>
      X_vars slv \<noteq> [] \<and> obeys slv a \<and> fits a state"
    then have cl: "closed_for slv (set (keys state))" and kx: "set (keys state) = set (X_vars slv)"
      and ne: "X_vars slv \<noteq> []" and ob: "obeys slv a" and f: "fits a state"
      by blast+
    from reduce_ok[OF cl] obtain state1 ok cnt1 where
      red: "reduce slv state cnt = Inr (state1, ok, cnt1)" by (metis prod_cases3)
    then have rl: "reduce_loop slv False state = Inr (state1, ok)"
      by (auto simp: reduce_def split: sum.splits)
    from kx have "set (keys state) \<subseteq> set (X_vars slv)" by simp
    from reduce_loop_fits[OF rl f this ob] have ok: "ok" and f1: "fits a state1" by simp_all
    have k: "keys state1 = keys state" by (rule narrows_keys[OF reduce_narrows[OF red]])
    with cl have cl1: "closed_for slv (set (keys state1))" by simp
    from k kx have kx1: "set (keys state1) = set (X_vars slv)" by simp
    then have xs: "set (X_vars slv) \<subseteq> set (keys state1)" by simp
    from red ok have red': "reduce slv state cnt = Inr (state1, True, cnt1)" by simp
    from all_solved_ok[OF xs] obtain b where b: "all_solved state1 (X_vars slv) = Inr b"
      by blast
    show "\<exists>res. search slv state cnt = Inr res \<and> truthy (fst (snd res))"
    proof (cases b)
      case True
      with red' b have "search slv state cnt = Inr (state1, PyState state1, cnt1)"
        by (subst search.simps) simp
      moreover from kx1 ne have "state1 \<noteq> []" by (auto simp: keys_def)
      ultimately show ?thesis by simp
    next
      case False
      with b have b': "all_solved state1 (X_vars slv) = Inr False" by simp
      from choose_ok[OF red' xs b']
      obtain ps n s vals where
        c: "unfilled state1 (X_vars slv) = Inr ps" "py_min ps = Inr (n, s)"
           "getitem state1 s = Inr vals" "s \<in> set (keys state1)"
        by blast
      from f1 c(3) have "a s \<in> set vals" by (simp add: fits_def getitem_Inr)
      with "1.IH"[OF red' refl refl _ b' refl c(1) c(2) refl c(3)] cl1 kx1 ne ob f1 c(4)
      obtain res where res: "search_vals slv state1 s vals (fst cnt1, Suc (snd cnt1)) = Inr res"
        "truthy (fst res)"
        by auto
      then obtain att c2 where
        sv: "search_vals slv state1 s vals (fst cnt1, Suc (snd cnt1)) = Inr (att, c2)"
        and t: "truthy att"
        by (cases res) auto
      from red' b' c sv have "search slv state cnt = Inr (state1, att, c2)"
        by (subst search.simps) simp
      with t show ?thesis by simp
    qed
  qed
next
  case (2 slv state s cnt)
  show ?case by simp
next
  case (3 slv state s val vals cnt)
  show ?case
  proof
    assume h: "closed_for slv (set (keys state)) \<and> set (keys state) = set (X_vars slv) \<and>
      X_vars slv \<noteq> [] \<and> obeys slv a \<and> fits a state \<and> s \<in> set (keys state) \<and>
      a s \<in> set (val # vals)"
    then have cl: "closed_for slv (set (keys state))" and kx: "set (keys state) = set (X_vars slv)"
      and ne: "X_vars slv \<noteq> []" and ob: "obeys slv a" and f: "fits a state"
      and s: "s \<in> set (keys state)" and as: "a s \<in> set (val # vals)"
      by blast+
    from s obtain new where av: "assign_value state s [val] = Inr new"
      using assign_value_ok[of s state] by blast
    have kn: "keys new = keys state"
      using av by (rule assign_value_keys)
    with cl have "closed_for slv (set (keys new))" by simp
    from search_ok[OF this] obtain m att c1 where se: "search slv new cnt = Inr (m, att, c1)"
      by (metis prod_cases3)
    show "\<exists>res. search_vals slv state s (val # vals) cnt = Inr res \<and> truthy (fst res)"
    proof (cases "truthy att")
      case True
      with av se show ?thesis by simp
    next
      case False
      have "val \<noteq> a s"
      proof
        assume "val = a s"
        then have "a s \<in> set [val]" by simp
        from fits_assign[OF f av this] have "fits a new" .
        with "3.IH"(1)[OF av] cl kx ne ob kn se have "truthy att" by auto
        with False show False by simp
      qed
      with as have "a s \<in> set vals" by auto
      with "3.IH"(2)[OF av se refl refl False] h
      obtain res where "search_vals slv state s vals c1 = Inr res" "truthy (fst res)"
        by auto
      with av se False show ?thesis by simp
    qed
  qed
qed

lemma search_complete:
  assumes "closed_for slv (set (keys st))" and "set (keys st) = set (X_vars slv)"
    and "X_vars slv \<noteq> []" and "obeys slv a" and "fits a st"
  shows "\<exists>m r c. search slv st cnt = Inr (m, PyState r, c) \<and> r \<noteq> []"
proof -
  from search_complete_aux(1)[of slv st a cnt] assms obtain res where
    res: "search slv st cnt = Inr res" "truthy (fst (snd res))"
    by blast
  obtain m att c where r: "res = (m, att, c)" by (cases res) auto
  with res(2) obtain r' where "att = PyState r'" "r' \<noteq> []"
    by (auto simp: truthy_iff)
  with res(1) r show ?thesis by blast
qed

subsection \<open>Problems whose units have the alphabet's size\<close>

text \<open>
  \<open>full_units slv\<close>: there is a variable; the initial candidates are symbols of the
  alphabet; every unit is made of distinct variables, as many as the alphabet has
  symbols; and the peers of a variable are other variables that share a unit with it.
  Both adapters build such problems (for the map adapter, when the given colours are
  among R, B and G).
\<close>

definition full_units :: "('v, 'a) solver_scheme \<Rightarrow> bool" where
  "full_units slv \<longleftrightarrow>
     X_vars slv \<noteq> [] \<and>
     (\<forall>p \<in> set (internal_state slv). set (snd p) \<subseteq> set (D_vals slv)) \<and>
     (\<forall>u \<in> set (C_units slv). distinct u \<and> length u = length (remdups (D_vals slv))) \<and>
     (\<forall>x \<in> set (X_vars slv).
        case map_of (peers slv) x of
          None \<Rightarrow> True
        | Some ps \<Rightarrow> (\<forall>p \<in> set ps. p \<noteq> x \<and> (\<exists>u \<in> set (C_units slv). x \<in> set u \<and> p \<in> set u)))"

lemma consistent_fits:
  assumes "well_formed slv" and "consistent slv a"
  shows "fits a (internal_state slv)"
  unfolding fits_def
proof (intro allI impI)
  fix k v
  assume kv: "map_of (internal_state slv) k = Some v"
  then have "k \<in> set (keys (internal_state slv))"
    by (auto simp: keys_def dest: map_of_SomeD intro: rev_image_eqI)
  with assms(1) have "k \<in> set (X_vars slv)" by (simp add: well_formed_def)
  with assms(2) kv show "a k \<in> set v" by (auto simp: consistent_def)
qed

lemma consistent_obeys:
  assumes wf: "well_formed slv" and fu: "full_units slv" and co: "consistent slv a"
  shows "obeys slv a"
  unfolding obeys_def
proof (intro conjI ballI allI impI)
  fix x ps p
  assume x: "x \<in> set (X_vars slv)" and ps: "map_of (peers slv) x = Some ps" and p: "p \<in> set ps"
  from fu x ps p obtain u where "p \<noteq> x" "u \<in> set (C_units slv)" "x \<in> set u" "p \<in> set u"
    unfolding full_units_def by fastforce
  with co show "a p \<noteq> a x" unfolding consistent_def by blast
next
  fix u assume u: "u \<in> set (C_units slv)"
  with fu show "distinct u" by (simp add: full_units_def)
next
  fix u assume u: "u \<in> set (C_units slv)"
  with co show "inj_on a (set u)"
    unfolding consistent_def inj_on_def by blast
next
  fix u c
  assume u: "u \<in> set (C_units slv)" and c: "c \<in> set (D_vals slv)"
  from fu u have d: "distinct u" and len: "length u = length (remdups (D_vals slv))"
    by (simp_all add: full_units_def)
  from co u have inj: "inj_on a (set u)"
    unfolding consistent_def inj_on_def by blast
  have sub: "a ` set u \<subseteq> set (D_vals slv)"
  proof
    fix y assume "y \<in> a ` set u"
    then obtain m where m: "m \<in> set u" "y = a m" by blast
    with wf u have mx: "m \<in> set (X_vars slv)" by (auto simp: well_formed_def)
    with co obtain v0 where v0: "map_of (internal_state slv) m = Some v0" "a m \<in> set v0"
      unfolding consistent_def by (fastforce split: option.splits)
    from v0(1) have "(m, v0) \<in> set (internal_state slv)" by (rule map_of_SomeD)
    with fu have "set v0 \<subseteq> set (D_vals slv)"
      unfolding full_units_def by fastforce
    with v0(2) m(2) show "y \<in> set (D_vals slv)" by blast
  qed
  have "card (a ` set u) = card (set u)" using inj by (rule card_image)
  also have "\<dots> = length u" using d by (rule distinct_card)
  also have "\<dots> = card (set (D_vals slv))" using len by (simp add: length_remdups_card_conv)
  finally have "a ` set u = set (D_vals slv)"
    using sub by (simp add: card_subset_eq)
  then have "set (D_vals slv) = a ` set u" by (rule sym)
  with c have "c \<in> a ` set u" by simp
  then show "\<exists>m \<in> set u. a m = c" by auto
qed

lemma solve_complete:
  assumes wf: "well_formed slv" and fu: "full_units slv" and co: "consistent slv a"
  shows "\<exists>slv'. solve slv = Inr (slv', True)"
proof -
  let ?slv0 = "slv\<lparr>reduce_count := 0, search_count := 0\<rparr>"
  have cl: "closed_for ?slv0 (set (keys (internal_state slv)))"
    using well_formed_closed[OF wf] by (simp add: closed_for_def)
  have kx: "set (keys (internal_state slv)) = set (X_vars ?slv0)"
    using wf by (simp add: well_formed_def)
  have ne: "X_vars ?slv0 \<noteq> []" using fu by (simp add: full_units_def)
  have ob: "obeys ?slv0 a"
    using consistent_obeys[OF wf fu co] by (simp add: obeys_def)
  note f = consistent_fits[OF wf co]
  from search_complete[OF cl kx ne ob f, of "(0, 0)"] obtain m r c where
    "search ?slv0 (internal_state slv) (0, 0) = Inr (m, PyState r, c)" "r \<noteq> []"
    by blast
  then show ?thesis
    by (simp add: solve_def Let_def)
qed

lemma unsolvable_iff_no_assignment:
  assumes "well_formed slv" and "Eliminate \<in> set (reduce_funcs slv)" and "\<not> solved slv"
    and "full_units slv"
  shows "(\<exists>slv'. solve slv = Inr (slv', False)) \<longleftrightarrow> (\<nexists>a. consistent slv a)"
proof
  assume "\<exists>slv'. solve slv = Inr (slv', False)"
  then obtain slv' where f: "solve slv = Inr (slv', False)" ..
  show "\<nexists>a. consistent slv a"
  proof
    assume "\<exists>a. consistent slv a"
    then obtain a where "consistent slv a" ..
    from solve_complete[OF assms(1,4) this] f show False by simp
  qed
next
  assume "\<nexists>a. consistent slv a"
  from solve_fails_without_assignment[OF assms(1-3) this]
  show "\<exists>slv'. solve slv = Inr (slv', False)" .
qed

section \<open>Example problems\<close>

text \<open>A generic solver over the given state, with the peers the adapters would build.\<close>

definition solver_of ::
  "'v state \<Rightarrow> 'v list \<Rightarrow> string \<Rightarrow> 'v list list \<Rightarrow> rule list \<Rightarrow> 'v solver" where
  "solver_of state X D C fs =
     \<lparr> internal_state = state, X_vars = X, D_vals = D, C_units = C, peers = unit_peers X C,
       solved = False, reduce_funcs = fs, reduce_count = 0, search_count = 0 \<rparr>"

text \<open>Three cells in one unit, two of them a naked twin.\<close>

definition twins_example :: "string solver" where
  "twins_example =
     solver_of [(''a'', ''12''), (''b'', ''12''), (''c'', ''123'')] [''a'', ''b'', ''c''] ''123''
       [[''a'', ''b'', ''c'']] [Eliminate, OnlyChoice, NakedTwins]"

text \<open>Two cells of one unit fixed to the same value: no solution.\<close>

definition clash_example :: "string solver" where
  "clash_example =
     solver_of [(''a'', ''1''), (''b'', ''1'')] [''a'', ''b''] ''12'' [[''a'', ''b'']]
       [Eliminate, OnlyChoice]"

text \<open>The map of Australia with no region coloured, as \<open>Australia(None)\<close> builds it.\<close>

definition australia :: "string solver" where
  "australia = solver_of (state_setup None) X_map D_map C_map [Eliminate, OnlyChoice]"

lemma Australia_init_None: "Australia_init None = Inr australia"
  by (simp add: Australia_init_def ConstraintSolver_init_def australia_def solver_of_def)

text \<open>The same map with South Australia given as blue.\<close>

definition australia_SA_blue :: "string solver" where
  "australia_SA_blue =
     solver_of (state_setup (Some [(''SA'', ''B'')])) X_map D_map C_map [Eliminate, OnlyChoice]"

text \<open>Four cells in three units of two; the alphabet has three symbols.\<close>

definition only_choice_example :: "string solver" where
  "only_choice_example =
     solver_of [(''a'', ''12''), (''b'', ''23''), (''c'', ''13''), (''d'', ''3'')]
       [''a'', ''b'', ''c'', ''d''] ''123'' [[''a'', ''b''], [''a'', ''c''], [''c'', ''d'']]
       [Eliminate, OnlyChoice]"

text \<open>A problem whose first branch (a = 1) runs into an empty candidate set.\<close>

definition prune_example :: "string solver" where
  "prune_example =
     solver_of [(''a'', ''12''), (''b'', ''12''), (''c'', ''13''), (''d'', ''13''),
                (''e'', ''245''), (''f'', ''245'')]
       [''a'', ''b'', ''c'', ''d'', ''e'', ''f''] ''12345''
       [[''a'', ''b''], [''a'', ''c'', ''d'', ''e'', ''f'']] [Eliminate, OnlyChoice]"


text \<open>Two units of two cells: a and b are fixed to the same value, c and d are open.\<close>

definition late_stop_example :: "string solver" where
  "late_stop_example =
     solver_of [(''a'', ''1''), (''b'', ''1''), (''c'', ''12''), (''d'', ''13'')]
       [''a'', ''b'', ''c'', ''d''] ''123'' [[''a'', ''b''], [''c'', ''d'']]
       [Eliminate, OnlyChoice]"

text \<open>A chain of three units that propagation solves in two passes and confirms in a
  third.\<close>

definition chain_example :: "string solver" where
  "chain_example =
     solver_of [(''a'', ''1''), (''b'', ''12''), (''c'', ''12''), (''d'', ''12'')]
       [''a'', ''b'', ''c'', ''d''] ''12'' [[''c'', ''d''], [''b'', ''c''], [''a'', ''b'']]
       [Eliminate, OnlyChoice]"

lemma grid_chars_None:
  "grid_chars grid non_val = None \<longleftrightarrow> \<not> set grid \<subseteq> set unit_values \<union> {CHR ''.''}"
  by (induction grid) auto

lemma grid_chars_length: "grid_chars grid non_val = Some chars \<Longrightarrow> length chars = length grid"
  by (induction grid arbitrary: chars) (auto split: if_splits)

lemma narrows_pointwise:
  assumes "narrows st st'"
  shows "keys st' = keys st \<and>
    (\<forall>k v. map_of st k = Some v \<longrightarrow>
       (\<exists>v'. map_of st' k = Some v' \<and> set v' \<subseteq> set v \<and> length v' \<le> length v))"
  using narrows_keys[OF assms] narrows_map_of[OF assms] by (fastforce simp: sub_def)

section \<open>The claims\<close>

text \<open>
  C3, as the code has it. \<open>ConstraintSolver.__init__\<close> checks nothing: whatever the
  state, the variables, the alphabet, the units and the peers are, it succeeds and stores
  them as given. The only input check of the repository is in the Sudoku adapter: a grid
  with a character other than the digits 1-9 and the dot, or not of 81 cells, leaves the
  solver's fields unset, and every other grid is accepted.
\<close>

theorem construction_checks:
  "(\<exists>slv. ConstraintSolver_init st X D C prs = Inr slv \<and> internal_state slv = st \<and>
          X_vars slv = X \<and> D_vals slv = D \<and> C_units slv = C \<and> peers slv = prs) \<and>
   (Sudoku_init grid diagonal = Inr None \<longleftrightarrow>
      (\<not> set grid \<subseteq> set ''123456789.'' \<or> length grid \<noteq> 81))"
proof
  show "\<exists>slv. ConstraintSolver_init st X D C prs = Inr slv \<and> internal_state slv = st \<and>
          X_vars slv = X \<and> D_vals slv = D \<and> C_units slv = C \<and> peers slv = prs"
    by (simp add: ConstraintSolver_init_def)
next
  have alphabet: "set unit_values \<union> {CHR ''.''} = set ''123456789.''"
    by (auto simp: unit_values_def cols_def)
  show "Sudoku_init grid diagonal = Inr None \<longleftrightarrow>
      (\<not> set grid \<subseteq> set ''123456789.'' \<or> length grid \<noteq> 81)"
  proof (cases "grid_chars grid True")
    case None
    then have "\<not> set grid \<subseteq> set ''123456789.''"
      unfolding grid_chars_None alphabet .
    with None show ?thesis
      by (simp add: Sudoku_init_def grid_values_def)
  next
    case (Some chars)
    then have "set grid \<subseteq> set ''123456789.''"
      using grid_chars_None[of grid True] unfolding alphabet by simp
    moreover have "length chars = length grid"
      using Some by (rule grid_chars_length)
    ultimately show ?thesis
      using Some
      by (simp add: Sudoku_init_def grid_values_def ConstraintSolver_init_def)
  qed
qed

theorem construction_checks_witness:
  "Sudoku_init ''12x'' False = Inr None \<and> \<not> set ''12x'' \<subseteq> set ''123456789.''"
  using construction_checks[where grid = "''12x''" and diagonal = False
      and st = "[] :: string state" and X = "[]" and D = "[]" and C = "[]" and prs = "[]"]
  by simp

text \<open>
  C3, as the spec has it, fails: the solver is constructed from a unit that names the
  unknown variable z, an alphabet with a repeated symbol and an initial value outside the
  alphabet; and the map adapter takes an initial colour X that is not in RBG.
\<close>

theorem construction_accepts_invalid:
  "''z'' \<notin> set [''a''] \<and> \<not> distinct ''11'' \<and> \<not> set ''x'' \<subseteq> set ''11'' \<and>
   ConstraintSolver_init [(''a'', ''x'')] [''a''] ''11'' [[''z'']] [] =
     Inr \<lparr> internal_state = [(''a'', ''x'')], X_vars = [''a''], D_vals = ''11'',
           C_units = [[''z'']], peers = [], solved = False,
           reduce_funcs = [Eliminate, OnlyChoice], reduce_count = 0, search_count = 0 \<rparr> \<and>
   \<not> set ''X'' \<subseteq> set D_map \<and>
   map_option internal_state (case Australia_init (Some [(''WA'', ''X'')]) of
       Inl e \<Rightarrow> None | Inr slv \<Rightarrow> Some slv) =
     Some [(''WA'', ''X''), (''NT'', ''RBG''), (''SA'', ''RBG''), (''QL'', ''RBG''),
           (''NSW'', ''RBG''), (''VT'', ''RBG'')]"
  by (simp add: ConstraintSolver_init_def Australia_init_def state_setup_def X_map_def D_map_def)

text \<open>
  C6: a propagation pass, whatever the list of rules (elimination, only choice, naked
  twins, in any order and number), keeps the keys of the state and leaves every variable
  a candidate string that is no longer than before and uses only characters it had.
\<close>

theorem pass_never_grows:
  assumes "apply_funcs slv fs st = Inr st'"
  shows "keys st' = keys st \<and>
    (\<forall>k v. map_of st k = Some v \<longrightarrow>
       (\<exists>v'. map_of st' k = Some v' \<and> set v' \<subseteq> set v \<and> length v' \<le> length v))"
  by (rule narrows_pointwise[OF apply_funcs_narrows[OF assms]])

theorem pass_never_grows_witness:
  "apply_funcs twins_example (reduce_funcs twins_example) (internal_state twins_example) =
     Inr [(''a'', ''12''), (''b'', ''12''), (''c'', ''3'')] \<and>
   keys [(''a'', ''12''), (''b'', ''12''), (''c'', ''3'')] = keys (internal_state twins_example) \<and>
   (\<exists>v'. map_of [(''a'', ''12''), (''b'', ''12''), (''c'', ''3'')] ''c'' = Some v' \<and>
         set v' \<subseteq> set ''123'' \<and> length v' \<le> length ''123'')"
proof -
  have h: "apply_funcs twins_example (reduce_funcs twins_example) (internal_state twins_example) =
     Inr [(''a'', ''12''), (''b'', ''12''), (''c'', ''3'')]"
    by code_simp
  have c: "map_of (internal_state twins_example) ''c'' = Some ''123''"
    by code_simp
  from pass_never_grows[OF h] c h show ?thesis by blast
qed

text \<open>
  C10: a failed solve is not atomic. On the clash example solve returns False, and the
  state it leaves has lost the candidate of b that the top-level propagation removed.
\<close>

theorem failed_solve_changes_state:
  "solve clash_example =
     Inr (clash_example\<lparr>internal_state := [(''a'', ''1''), (''b'', [])], reduce_count := 1\<rparr>,
          False) \<and>
   internal_state clash_example = [(''a'', ''1''), (''b'', ''1'')]"
  by code_simp

text \<open>
  C9: when solve succeeds on a solver not yet flagged as solved, every variable ends with
  a single value, that value is one of the variable's initial candidates, and a variable
  whose initial candidate string had one character keeps it.
\<close>

theorem solution_within_initial_candidates:
  assumes "\<not> solved slv" and "solve slv = Inr (slv', True)" and "x \<in> set (X_vars slv)"
  shows "\<exists>c v0. map_of (internal_state slv') x = Some [c] \<and>
           map_of (internal_state slv) x = Some v0 \<and> c \<in> set v0 \<and>
           (length v0 = 1 \<longrightarrow> v0 = [c])"
  by (rule success_within_initial[OF assms])

theorem solution_within_initial_candidates_witness:
  "\<not> solved australia_SA_blue \<and>
   solve australia_SA_blue =
     Inr (australia_SA_blue\<lparr>internal_state :=
            [(''WA'', ''G''), (''NT'', ''R''), (''SA'', ''B''), (''QL'', ''G''),
             (''NSW'', ''R''), (''VT'', ''G'')],
          solved := True, reduce_count := 2, search_count := 1\<rparr>, True) \<and>
   ''SA'' \<in> set (X_vars australia_SA_blue) \<and>
   map_of (internal_state australia_SA_blue) ''SA'' = Some ''B'' \<and>
   (\<exists>c v0. map_of [(''WA'', ''G''), (''NT'', ''R''), (''SA'', ''B''), (''QL'', ''G''),
                   (''NSW'', ''R''), (''VT'', ''G'')] ''SA'' = Some [c] \<and>
           map_of (internal_state australia_SA_blue) ''SA'' = Some v0 \<and> c \<in> set v0 \<and>
           (length v0 = 1 \<longrightarrow> v0 = [c]))"
proof -
  have h1: "\<not> solved australia_SA_blue"
    by code_simp
  have h2: "solve australia_SA_blue =
     Inr (australia_SA_blue\<lparr>internal_state :=
            [(''WA'', ''G''), (''NT'', ''R''), (''SA'', ''B''), (''QL'', ''G''),
             (''NSW'', ''R''), (''VT'', ''G'')],
          solved := True, reduce_count := 2, search_count := 1\<rparr>, True)"
    by code_simp
  have h3: "''SA'' \<in> set (X_vars australia_SA_blue)"
    by code_simp
  have h4: "map_of (internal_state australia_SA_blue) ''SA'' = Some ''B''"
    by code_simp
  from solution_within_initial_candidates[OF h1 h2 h3] h1 h2 h3 h4 show ?thesis
    by simp
qed

text \<open>
  C1: on a well-formed problem whose rule list has the elimination rule (the constructor
  puts it first), when solve succeeds on a solver not yet flagged as solved, every
  variable of the final state has exactly one candidate, and in every unit two different
  member variables have different values.
\<close>

theorem solve_success_consistent:
  assumes "well_formed slv" and "Eliminate \<in> set (reduce_funcs slv)"
    and "\<not> solved slv" and "solve slv = Inr (slv', True)"
  shows "(\<forall>x \<in> set (X_vars slv). \<exists>c. map_of (internal_state slv') x = Some [c]) \<and>
         (\<forall>u \<in> set (C_units slv). \<forall>x \<in> set u. \<forall>y \<in> set u.
            x \<noteq> y \<longrightarrow> map_of (internal_state slv') x \<noteq> map_of (internal_state slv') y)"
  by (rule success_consistent[OF assms])

theorem solve_success_consistent_witness:
  "well_formed australia \<and> Eliminate \<in> set (reduce_funcs australia) \<and> \<not> solved australia \<and>
   solve australia =
     Inr (australia\<lparr>internal_state :=
            [(''WA'', ''B''), (''NT'', ''R''), (''SA'', ''G''), (''QL'', ''B''),
             (''NSW'', ''R''), (''VT'', ''B'')],
          solved := True, reduce_count := 3, search_count := 2\<rparr>, True) \<and>
   (\<exists>c. map_of [(''WA'', ''B''), (''NT'', ''R''), (''SA'', ''G''), (''QL'', ''B''),
                (''NSW'', ''R''), (''VT'', ''B'')] ''SA'' = Some [c]) \<and>
   map_of [(''WA'', ''B''), (''NT'', ''R''), (''SA'', ''G''), (''QL'', ''B''),
           (''NSW'', ''R''), (''VT'', ''B'')] ''SA'' \<noteq>
   map_of [(''WA'', ''B''), (''NT'', ''R''), (''SA'', ''G''), (''QL'', ''B''),
           (''NSW'', ''R''), (''VT'', ''B'')] ''NSW''"
proof -
  have h1: "well_formed australia"
    by code_simp
  have h2: "Eliminate \<in> set (reduce_funcs australia)"
    by code_simp
  have h3: "\<not> solved australia"
    by code_simp
  have h4: "solve australia =
     Inr (australia\<lparr>internal_state :=
            [(''WA'', ''B''), (''NT'', ''R''), (''SA'', ''G''), (''QL'', ''B''),
             (''NSW'', ''R''), (''VT'', ''B'')],
          solved := True, reduce_count := 3, search_count := 2\<rparr>, True)"
    by code_simp
  have x: "''SA'' \<in> set (X_vars australia)"
    by code_simp
  have u: "[''SA'', ''QL'', ''NSW''] \<in> set (C_units australia)"
    by code_simp
  from solve_success_consistent[OF h1 h2 h3 h4] x u
  have "(\<exists>c. map_of [(''WA'', ''B''), (''NT'', ''R''), (''SA'', ''G''), (''QL'', ''B''),
                (''NSW'', ''R''), (''VT'', ''B'')] ''SA'' = Some [c])"
    and "map_of [(''WA'', ''B''), (''NT'', ''R''), (''SA'', ''G''), (''QL'', ''B''),
           (''NSW'', ''R''), (''VT'', ''B'')] ''SA'' \<noteq>
         map_of [(''WA'', ''B''), (''NT'', ''R''), (''SA'', ''G''), (''QL'', ''B''),
           (''NSW'', ''R''), (''VT'', ''B'')] ''NSW''"
    by simp_all
  with h1 h2 h3 h4 show ?thesis by blast
qed

text \<open>
  C5: solve terminates. The model's \<open>reduce_loop\<close> and \<open>search\<close> are total functions
  whose termination is proved from the measure the claim names, the total length of the
  candidate strings: a pass after which the loop goes on (the solved count changed) has
  made it strictly smaller, and so has every state a branch of the search recurses on.
  On a well-formed problem solve moreover raises nothing: it returns a solver and its
  flag.
\<close>

theorem solve_terminates:
  assumes "well_formed slv"
  shows "(\<exists>slv' b. solve slv = Inr (slv', b)) \<and>
    (\<forall>st st'. apply_funcs slv (reduce_funcs slv) st = Inr st' \<longrightarrow>
       solved_units_count st \<noteq> solved_units_count st' \<longrightarrow> total_len st' < total_len st) \<and>
    (\<forall>st cnt st1 ok cnt1 ps n s v new.
       reduce slv st cnt = Inr (st1, ok, cnt1) \<longrightarrow> unfilled st1 (X_vars slv) = Inr ps \<longrightarrow>
       py_min ps = Inr (n, s) \<longrightarrow> assign_value st1 s [v] = Inr new \<longrightarrow>
       total_len new < total_len st)"
proof (intro conjI)
  from solve_ok[OF assms] show "\<exists>slv' b. solve slv = Inr (slv', b)"
    by (metis prod.exhaust)
next
  show "\<forall>st st'. apply_funcs slv (reduce_funcs slv) st = Inr st' \<longrightarrow>
       solved_units_count st \<noteq> solved_units_count st' \<longrightarrow> total_len st' < total_len st"
    by (blast intro: apply_funcs_decreases)
next
  show "\<forall>st cnt st1 ok cnt1 ps n s v new.
       reduce slv st cnt = Inr (st1, ok, cnt1) \<longrightarrow> unfilled st1 (X_vars slv) = Inr ps \<longrightarrow>
       py_min ps = Inr (n, s) \<longrightarrow> assign_value st1 s [v] = Inr new \<longrightarrow>
       total_len new < total_len st"
    by (blast intro: child_decreases)
qed

theorem solve_terminates_witness:
  "well_formed australia \<and> (\<exists>slv' b. solve australia = Inr (slv', b))"
proof -
  have h: "well_formed australia"
    by code_simp
  from solve_terminates[OF h] h show ?thesis by blast
qed

text \<open>
  C2, as the code has it. On a well-formed problem with the elimination rule, solve
  returns its outcome as a value, and when no consistent assignment exists the outcome is
  False. Where every unit has the alphabet's size (\<open>full_units\<close>: the units are made
  of distinct variables, as many as the alphabet has symbols, the initial candidates are
  symbols of the alphabet, the peers are unit co-members and there is a variable) the
  converse holds as well, whatever rules the list has beside elimination: solve returns
  False exactly when no consistent assignment exists, and True when one exists. A branch
  whose propagation ran into an empty candidate set is only left: the loop over the
  values goes on with the next value. (Without the condition on the units the converse
  fails, see the counterexample: the only-choice rule takes every unit to hold every
  symbol, and drops solutions of problems where a unit is smaller than the alphabet.)
\<close>

theorem unsolvable_outcome:
  assumes "well_formed slv" and "Eliminate \<in> set (reduce_funcs slv)" and "\<not> solved slv"
  shows "(\<exists>slv' b. solve slv = Inr (slv', b)) \<and>
    ((\<nexists>a. consistent slv a) \<longrightarrow> (\<exists>slv'. solve slv = Inr (slv', False))) \<and>
    (full_units slv \<longrightarrow>
       ((\<exists>slv'. solve slv = Inr (slv', False)) \<longleftrightarrow> (\<nexists>a. consistent slv a))) \<and>
    (full_units slv \<longrightarrow> (\<exists>a. consistent slv a) \<longrightarrow> (\<exists>slv'. solve slv = Inr (slv', True))) \<and>
    (\<forall>st s v vs cnt new m cnt1.
       assign_value st s [v] = Inr new \<longrightarrow> search slv new cnt = Inr (m, PyFalse, cnt1) \<longrightarrow>
       search_vals slv st s (v # vs) cnt = search_vals slv st s vs cnt1)"
proof (intro conjI)
  from solve_ok[OF assms(1)] show "\<exists>slv' b. solve slv = Inr (slv', b)"
    by (metis prod.exhaust)
next
  show "(\<nexists>a. consistent slv a) \<longrightarrow> (\<exists>slv'. solve slv = Inr (slv', False))"
    using solve_fails_without_assignment[OF assms] by blast
next
  show "full_units slv \<longrightarrow>
       ((\<exists>slv'. solve slv = Inr (slv', False)) \<longleftrightarrow> (\<nexists>a. consistent slv a))"
    by (rule impI) (rule unsolvable_iff_no_assignment[OF assms])
next
  show "full_units slv \<longrightarrow> (\<exists>a. consistent slv a) \<longrightarrow> (\<exists>slv'. solve slv = Inr (slv', True))"
    using solve_complete[OF assms(1)] by blast
next
  show "\<forall>st s v vs cnt new m cnt1.
       assign_value st s [v] = Inr new \<longrightarrow> search slv new cnt = Inr (m, PyFalse, cnt1) \<longrightarrow>
       search_vals slv st s (v # vs) cnt = search_vals slv st s vs cnt1"
    by (blast intro: infeasible_branch_pruned)
qed

theorem unsolvable_outcome_witness:
  "well_formed clash_example \<and> Eliminate \<in> set (reduce_funcs clash_example) \<and>
   \<not> solved clash_example \<and> full_units clash_example \<and> (\<nexists>a. consistent clash_example a) \<and>
   (\<exists>slv'. solve clash_example = Inr (slv', False)) \<and>
   well_formed australia \<and> Eliminate \<in> set (reduce_funcs australia) \<and>
   \<not> solved australia \<and> full_units australia \<and>
   consistent australia
     (\<lambda>x. if x = ''NT'' \<or> x = ''NSW'' then CHR ''R'' else if x = ''SA'' then CHR ''G''
          else CHR ''B'') \<and>
   (\<exists>slv'. solve australia = Inr (slv', True)) \<and>
   (\<nexists>slv'. solve australia = Inr (slv', False)) \<and>
   solve australia =
     Inr (australia\<lparr>internal_state :=
            [(''WA'', ''B''), (''NT'', ''R''), (''SA'', ''G''), (''QL'', ''B''),
             (''NSW'', ''R''), (''VT'', ''B'')],
          solved := True, reduce_count := 3, search_count := 2\<rparr>, True) \<and>
   well_formed prune_example \<and> Eliminate \<in> set (reduce_funcs prune_example) \<and>
   \<not> solved prune_example \<and>
   assign_value (internal_state prune_example) ''a'' ''1'' =
     Inr [(''a'', ''1''), (''b'', ''12''), (''c'', ''13''), (''d'', ''13''),
          (''e'', ''245''), (''f'', ''245'')] \<and>
   search prune_example [(''a'', ''1''), (''b'', ''12''), (''c'', ''13''), (''d'', ''13''),
          (''e'', ''245''), (''f'', ''245'')] (1, 1) =
     Inr ([(''a'', ''1''), (''b'', ''2''), (''c'', ''3''), (''d'', []),
           (''e'', ''245''), (''f'', ''245'')], PyFalse, (2, 1)) \<and>
   search_vals prune_example (internal_state prune_example) ''a'' ''12'' (1, 1) =
     search_vals prune_example (internal_state prune_example) ''a'' ''2'' (2, 1)"
proof -
  have c1: "well_formed clash_example" by code_simp
  have c2: "Eliminate \<in> set (reduce_funcs clash_example)" by code_simp
  have c3: "\<not> solved clash_example" by code_simp
  have c4: "\<nexists>a. consistent clash_example a"
    by (auto simp: consistent_def clash_example_def solver_of_def)
  have c6: "full_units clash_example" by code_simp
  have a1: "well_formed australia" by code_simp
  have a2: "Eliminate \<in> set (reduce_funcs australia)" by code_simp
  have a3: "\<not> solved australia" by code_simp
  have a4: "full_units australia" by code_simp
  have a5: "consistent australia
     (\<lambda>x. if x = ''NT'' \<or> x = ''NSW'' then CHR ''R'' else if x = ''SA'' then CHR ''G''
          else CHR ''B'')"
    by code_simp
  have a6: "solve australia =
     Inr (australia\<lparr>internal_state :=
            [(''WA'', ''B''), (''NT'', ''R''), (''SA'', ''G''), (''QL'', ''B''),
             (''NSW'', ''R''), (''VT'', ''B'')],
          solved := True, reduce_count := 3, search_count := 2\<rparr>, True)"
    by code_simp
  have p1: "well_formed prune_example" by code_simp
  have p2: "Eliminate \<in> set (reduce_funcs prune_example)" by code_simp
  have p3: "\<not> solved prune_example" by code_simp
  have p4: "assign_value (internal_state prune_example) ''a'' ''1'' =
     Inr [(''a'', ''1''), (''b'', ''12''), (''c'', ''13''), (''d'', ''13''),
          (''e'', ''245''), (''f'', ''245'')]"
    by code_simp
  have p5: "search prune_example [(''a'', ''1''), (''b'', ''12''), (''c'', ''13''), (''d'', ''13''),
          (''e'', ''245''), (''f'', ''245'')] (1, 1) =
     Inr ([(''a'', ''1''), (''b'', ''2''), (''c'', ''3''), (''d'', []),
           (''e'', ''245''), (''f'', ''245'')], PyFalse, (2, 1))"
    by code_simp
  note clash = unsolvable_outcome[OF c1 c2 c3]
  note austr = unsolvable_outcome[OF a1 a2 a3]
  note prune = unsolvable_outcome[OF p1 p2 p3]
  have c5: "\<exists>slv'. solve clash_example = Inr (slv', False)"
    by (rule clash[THEN conjunct2, THEN conjunct1, THEN mp, OF c4])
  have a5': "\<exists>a. consistent australia a"
    by (rule exI[of "consistent australia", OF a5])
  have a7: "\<exists>slv'. solve australia = Inr (slv', True)"
    by (rule austr[THEN conjunct2, THEN conjunct2, THEN conjunct2, THEN conjunct1,
          THEN mp, THEN mp, OF a4 a5'])
  note iff = austr[THEN conjunct2, THEN conjunct2, THEN conjunct1, THEN mp, OF a4]
  from iff a5' have a8: "\<nexists>slv'. solve australia = Inr (slv', False)"
    by blast
  have p6: "search_vals prune_example (internal_state prune_example) ''a'' ''12'' (1, 1) =
     search_vals prune_example (internal_state prune_example) ''a'' ''2'' (2, 1)"
    by (rule prune[THEN conjunct2, THEN conjunct2, THEN conjunct2, THEN conjunct2,
          rule_format, OF p4 p5])
  from c1 c2 c3 c6 c4 c5 a1 a2 a3 a4 a5 a7 a8 a6 p1 p2 p3 p4 p5 p6 show ?thesis
    by (intro conjI)
qed

text \<open>
  C2, as the spec has it, fails: the example below is well formed and has the consistent
  assignment a = 2, b = 3, c = 1, d = 3, and solve returns False on it. Its units have
  two variables and the alphabet has three symbols. In the first pass elimination takes
  3 from c and only choice puts 1 into a (the one place for 1 in the unit of a and b); in
  the second pass elimination takes a's 1 from c, which is left empty.
\<close>

theorem unsolvable_despite_assignment:
  "well_formed only_choice_example \<and> \<not> solved only_choice_example \<and>
   solve only_choice_example =
     Inr (only_choice_example\<lparr>internal_state :=
            [(''a'', ''1''), (''b'', ''2''), (''c'', []), (''d'', ''3'')],
          reduce_count := 1\<rparr>, False) \<and>
   consistent only_choice_example
     (\<lambda>x. if x = ''a'' then CHR ''2'' else if x = ''b'' then CHR ''3''
          else if x = ''c'' then CHR ''1'' else CHR ''3'')"
  by code_simp




text \<open>
  C7, as the code has it. \<open>__reduce\<close> is the loop \<open>propagate_by_pass\<close> (and counts
  one call): it records the number of entries of the state whose candidate string has
  exactly one character, applies the rules in the order of the list, each to the state
  the one before returned, and counts again. The test for an empty candidate string is
  made once in each pass, after the last rule and before the counts are compared: the
  loop then stops with False, so no further pass follows the one that emptied a string.
  Otherwise it stops with the state when the pass left the count as it was. The
  solver's own \<open>__solved_units_count\<close> and \<open>__unsolvable_units\<close> are the count and
  the test just described. (The keys of a dict are distinct.)
\<close>

theorem reduce_is_spec_loop:
  assumes "distinct (keys st)"
  shows "reduce slv st cnt =
     (case propagate_by_pass slv st of
        Inl e \<Rightarrow> Inl e
      | Inr (st', ok) \<Rightarrow> Inr (st', ok, (Suc (fst cnt), snd cnt))) \<and>
   solved_units_count st = spec_solved_count st \<and>
   (unsolvable_units st \<longleftrightarrow> spec_infeasible st) \<and>
   apply_funcs slv fs st = spec_pass slv fs st \<and>
   (\<forall>st' cnt'. reduce slv st cnt = Inr (st', False, cnt') \<longrightarrow> spec_infeasible st') \<and>
   (\<forall>st' cnt'. reduce slv st cnt = Inr (st', True, cnt') \<longrightarrow>
      \<not> spec_infeasible st' \<and>
      (\<exists>pre. spec_pass slv (reduce_funcs slv) pre = Inr st' \<and>
             spec_solved_count pre = spec_solved_count st'))"
proof (intro conjI allI impI)
  show "reduce slv st cnt =
     (case propagate_by_pass slv st of
        Inl e \<Rightarrow> Inl e
      | Inr (st', ok) \<Rightarrow> Inr (st', ok, (Suc (fst cnt), snd cnt)))"
    by (simp add: reduce_def reduce_loop_by_pass[OF assms])
next
  show "solved_units_count st = spec_solved_count st"
    by (rule solved_units_count_spec[OF assms])
next
  show "unsolvable_units st \<longleftrightarrow> spec_infeasible st"
    by (rule unsolvable_units_spec[OF assms])
next
  show "apply_funcs slv fs st = spec_pass slv fs st"
    by (simp add: spec_pass_apply_funcs)
next
  fix st' cnt'
  assume "reduce slv st cnt = Inr (st', False, cnt')"
  then have "reduce_loop slv False st = Inr (st', False)"
    by (auto simp: reduce_def split: sum.splits)
  then show "spec_infeasible st'" using assms by (rule reduce_loop_False_spec)
next
  fix st' cnt'
  assume "reduce slv st cnt = Inr (st', True, cnt')"
  then have r: "reduce_loop slv False st = Inr (st', True)"
    by (auto simp: reduce_def split: sum.splits)
  from reduce_loop_last_pass_spec[OF r assms] show "\<not> spec_infeasible st'" by blast
  from reduce_loop_last_pass_spec[OF r assms]
  show "\<exists>pre. spec_pass slv (reduce_funcs slv) pre = Inr st' \<and>
             spec_solved_count pre = spec_solved_count st'"
    by blast
qed

theorem reduce_is_spec_loop_witness:
  "distinct (keys (internal_state chain_example)) \<and>
   solved_units_count (internal_state chain_example) = 1 \<and>
   spec_pass chain_example (reduce_funcs chain_example) (internal_state chain_example) =
     Inr [(''a'', ''1''), (''b'', ''2''), (''c'', ''1''), (''d'', ''12'')] \<and>
   spec_solved_count [(''a'', ''1''), (''b'', ''2''), (''c'', ''1''), (''d'', ''12'')] = 3 \<and>
   spec_pass chain_example (reduce_funcs chain_example)
       [(''a'', ''1''), (''b'', ''2''), (''c'', ''1''), (''d'', ''12'')] =
     Inr [(''a'', ''1''), (''b'', ''2''), (''c'', ''1''), (''d'', ''2'')] \<and>
   spec_solved_count [(''a'', ''1''), (''b'', ''2''), (''c'', ''1''), (''d'', ''2'')] = 4 \<and>
   spec_pass chain_example (reduce_funcs chain_example)
       [(''a'', ''1''), (''b'', ''2''), (''c'', ''1''), (''d'', ''2'')] =
     Inr [(''a'', ''1''), (''b'', ''2''), (''c'', ''1''), (''d'', ''2'')] \<and>
   \<not> spec_infeasible [(''a'', ''1''), (''b'', ''2''), (''c'', ''1''), (''d'', ''2'')] \<and>
   reduce chain_example (internal_state chain_example) (0, 0) =
     Inr ([(''a'', ''1''), (''b'', ''2''), (''c'', ''1''), (''d'', ''2'')], True, (1, 0)) \<and>
   distinct (keys (internal_state clash_example)) \<and>
   reduce clash_example (internal_state clash_example) (0, 0) =
     Inr ([(''a'', ''1''), (''b'', [])], False, (1, 0)) \<and>
   spec_infeasible [(''a'', ''1''), (''b'', [])] \<and>
   unsolvable_units [(''a'', ''1''), (''b'', [])]"
proof -
  let ?p1 = "[(''a'', ''1''), (''b'', ''2''), (''c'', ''1''), (''d'', ''12'')]"
  let ?p2 = "[(''a'', ''1''), (''b'', ''2''), (''c'', ''1''), (''d'', ''2'')]"
  have d: "distinct (keys (internal_state chain_example))" by code_simp
  have c0: "spec_solved_count (internal_state chain_example) = 1" by code_simp
  have p1: "spec_pass chain_example (reduce_funcs chain_example) (internal_state chain_example) =
     Inr ?p1"
    by code_simp
  have c1: "spec_solved_count ?p1 = 3" by code_simp
  have p2: "spec_pass chain_example (reduce_funcs chain_example) ?p1 = Inr ?p2" by code_simp
  have c2: "spec_solved_count ?p2 = 4" by code_simp
  have p3: "spec_pass chain_example (reduce_funcs chain_example) ?p2 = Inr ?p2" by code_simp
  have f: "\<not> spec_infeasible ?p2" by code_simp
  have pp: "propagate_by_pass chain_example (internal_state chain_example) = Inr (?p2, True)"
    by code_simp
  have dc: "distinct (keys (internal_state clash_example))" by code_simp
  have dc': "distinct (keys [(''a'', ''1''), (''b'', [] :: string)])" by code_simp
  have pc: "propagate_by_pass clash_example (internal_state clash_example) =
     Inr ([(''a'', ''1''), (''b'', [])], False)"
    by code_simp
  have ic: "spec_infeasible [(''a'', ''1''), (''b'', [] :: string)]" by code_simp
  note chain = reduce_is_spec_loop[OF d, where slv = chain_example and cnt = "(0, 0)"]
  note clash = reduce_is_spec_loop[OF dc, where slv = clash_example and cnt = "(0, 0)"]
  note empty = reduce_is_spec_loop[OF dc', where slv = clash_example and cnt = "(0, 0)"]
  from chain c0 have s0: "solved_units_count (internal_state chain_example) = 1"
    by simp
  from chain pp have r: "reduce chain_example (internal_state chain_example) (0, 0) =
     Inr (?p2, True, (1, 0))"
    by simp
  from clash pc have rc: "reduce clash_example (internal_state clash_example) (0, 0) =
     Inr ([(''a'', ''1''), (''b'', [])], False, (1, 0))"
    by simp
  from empty ic have uc: "unsolvable_units [(''a'', ''1''), (''b'', [] :: string)]"
    by simp
  from d s0 p1 c1 p2 c2 p3 f r dc rc ic uc show ?thesis
    by (intro conjI)
qed

text \<open>
  C7, as the spec has it, fails: the loop does not stop at once when a candidate set
  becomes empty. In the example elimination leaves b without a candidate, and the loop of
  the spec's words, \<open>spec_propagate\<close>, stops there, with c and d as they were. The
  code goes on with the pass: only choice still sets c to 2 and d to 3 in the dict
  before \<open>__reduce\<close> returns False, and this is the state \<open>solve\<close> leaves behind.
\<close>

theorem reduce_finishes_the_pass:
  "eliminate late_stop_example (internal_state late_stop_example) =
     Inr [(''a'', ''1''), (''b'', []), (''c'', ''12''), (''d'', ''13'')] \<and>
   spec_infeasible [(''a'', ''1''), (''b'', []), (''c'', ''12''), (''d'', ''13'')] \<and>
   spec_propagate late_stop_example (internal_state late_stop_example) =
     Inr ([(''a'', ''1''), (''b'', []), (''c'', ''12''), (''d'', ''13'')], False) \<and>
   only_choice late_stop_example [(''a'', ''1''), (''b'', []), (''c'', ''12''), (''d'', ''13'')] =
     Inr [(''a'', ''1''), (''b'', []), (''c'', ''2''), (''d'', ''3'')] \<and>
   reduce late_stop_example (internal_state late_stop_example) (0, 0) =
     Inr ([(''a'', ''1''), (''b'', []), (''c'', ''2''), (''d'', ''3'')], False, (1, 0)) \<and>
   solve late_stop_example =
     Inr (late_stop_example\<lparr>internal_state :=
            [(''a'', ''1''), (''b'', []), (''c'', ''2''), (''d'', ''3'')],
          reduce_count := 1\<rparr>, False)"
  by code_simp

text \<open>
  C8: at a node where propagation succeeded and some variable is unsolved, \<open>__search\<close>
  takes the variable \<open>s\<close> with the least pair (number of candidates, variable) among
  the variables with more than one candidate: the fewest candidates, and among those the
  least variable in the order of the variables (for the source's strings, string order).
  It counts the node, then tries the characters of \<open>s\<close>'s candidate string from left to
  right, each on the propagated state with \<open>s\<close> set to that one character and nothing
  else changed. What it returns is a state, and then the state that the first branch to
  return a state returned, every value to the left of that branch having been tried in
  vain (its search returned False, None or the empty dict); or it is None, and then every
  value of the string was tried in vain. The counters are passed from each branch to the
  next.
\<close>

theorem search_branches:
  assumes "reduce slv st cnt = Inr (st1, True, cnt1)"
    and "all_solved st1 (X_vars slv) = Inr False"
    and "unfilled st1 (X_vars slv) = Inr ps" and "py_min ps = Inr (n, s)"
    and "getitem st1 s = Inr vals"
  shows "s \<in> set (X_vars slv) \<and> map_of st1 s = Some vals \<and> n = length vals \<and> 1 < n \<and>
    (\<forall>x \<in> set (X_vars slv). \<forall>v. map_of st1 x = Some v \<longrightarrow> 1 < length v \<longrightarrow>
       n < length v \<or> (n = length v \<and> s \<le> x)) \<and>
    search slv st cnt =
      (case search_vals slv st1 s vals (fst cnt1, Suc (snd cnt1)) of
         Inl e \<Rightarrow> Inl e
       | Inr (a, c) \<Rightarrow> Inr (st1, a, c)) \<and>
    (\<forall>v new. assign_value st1 s [v] = Inr new \<longrightarrow>
       map_of new = (map_of st1)(s \<mapsto> [v]) \<and> keys new = keys st1) \<and>
    (\<forall>st' a c. search slv st cnt = Inr (st', a, c) \<longrightarrow>
       st' = st1 \<and>
       (((\<exists>r. a = PyState r \<and> r \<noteq> []) \<and>
          (\<exists>pre v post new m cm. vals = pre @ v # post \<and>
             tried_in_vain slv st1 s pre (fst cnt1, Suc (snd cnt1)) cm \<and>
             assign_value st1 s [v] = Inr new \<and> search slv new cm = Inr (m, a, c))) \<or>
        (a = PyNone \<and> tried_in_vain slv st1 s vals (fst cnt1, Suc (snd cnt1)) c)))"
proof (intro conjI)
  note least = chosen_is_least[OF assms(3,4)]
  from least show "s \<in> set (X_vars slv)" by simp
  from assms(5) show vals: "map_of st1 s = Some vals" by (simp add: getitem_Inr)
  from least vals show "n = length vals" by auto
  from least show "1 < n" by auto
  from least show "\<forall>x \<in> set (X_vars slv). \<forall>v. map_of st1 x = Some v \<longrightarrow> 1 < length v \<longrightarrow>
       n < length v \<or> (n = length v \<and> s \<le> x)"
    by simp
  show eq: "search slv st cnt =
      (case search_vals slv st1 s vals (fst cnt1, Suc (snd cnt1)) of
         Inl e \<Rightarrow> Inl e
       | Inr (a, c) \<Rightarrow> Inr (st1, a, c))"
    by (rule search_branch_eq[OF assms])
  show "\<forall>v new. assign_value st1 s [v] = Inr new \<longrightarrow>
       map_of new = (map_of st1)(s \<mapsto> [v]) \<and> keys new = keys st1"
    by (intro allI impI) (rule assign_value_single)
  show "\<forall>st' a c. search slv st cnt = Inr (st', a, c) \<longrightarrow>
       st' = st1 \<and>
       (((\<exists>r. a = PyState r \<and> r \<noteq> []) \<and>
          (\<exists>pre v post new m cm. vals = pre @ v # post \<and>
             tried_in_vain slv st1 s pre (fst cnt1, Suc (snd cnt1)) cm \<and>
             assign_value st1 s [v] = Inr new \<and> search slv new cm = Inr (m, a, c))) \<or>
        (a = PyNone \<and> tried_in_vain slv st1 s vals (fst cnt1, Suc (snd cnt1)) c))"
  proof (intro allI impI)
    fix st' a c
    assume "search slv st cnt = Inr (st', a, c)"
    with eq have sv: "search_vals slv st1 s vals (fst cnt1, Suc (snd cnt1)) = Inr (a, c)"
      and st': "st' = st1"
      by (auto split: sum.splits)
    from st' search_vals_first_success[OF sv]
    show "st' = st1 \<and>
       (((\<exists>r. a = PyState r \<and> r \<noteq> []) \<and>
          (\<exists>pre v post new m cm. vals = pre @ v # post \<and>
             tried_in_vain slv st1 s pre (fst cnt1, Suc (snd cnt1)) cm \<and>
             assign_value st1 s [v] = Inr new \<and> search slv new cm = Inr (m, a, c))) \<or>
        (a = PyNone \<and> tried_in_vain slv st1 s vals (fst cnt1, Suc (snd cnt1)) c))"
      by (rule conjI)
  qed
qed

theorem search_branches_witness:
  "reduce prune_example (internal_state prune_example) (0, 0) =
     Inr ([(''a'', ''12''), (''b'', ''12''), (''c'', ''13''), (''d'', ''13''),
           (''e'', ''245''), (''f'', ''245'')], True, (1, 0)) \<and>
   all_solved [(''a'', ''12''), (''b'', ''12''), (''c'', ''13''), (''d'', ''13''),
           (''e'', ''245''), (''f'', ''245'')] (X_vars prune_example) = Inr False \<and>
   unfilled [(''a'', ''12''), (''b'', ''12''), (''c'', ''13''), (''d'', ''13''),
           (''e'', ''245''), (''f'', ''245'')] (X_vars prune_example) =
     Inr [(2, ''a''), (2, ''b''), (2, ''c''), (2, ''d''), (3, ''e''), (3, ''f'')] \<and>
   py_min [(2 :: nat, ''a''), (2, ''b''), (2, ''c''), (2, ''d''), (3, ''e''), (3, ''f'')] =
     Inr (2, ''a'') \<and>
   getitem [(''a'', ''12''), (''b'', ''12''), (''c'', ''13''), (''d'', ''13''),
           (''e'', ''245''), (''f'', ''245'')] ''a'' = Inr ''12'' \<and>
   ''a'' \<in> set (X_vars prune_example) \<and>
   assign_value [(''a'', ''12''), (''b'', ''12''), (''c'', ''13''), (''d'', ''13''),
           (''e'', ''245''), (''f'', ''245'')] ''a'' ''1'' =
     Inr [(''a'', ''1''), (''b'', ''12''), (''c'', ''13''), (''d'', ''13''),
          (''e'', ''245''), (''f'', ''245'')] \<and>
   search prune_example [(''a'', ''1''), (''b'', ''12''), (''c'', ''13''), (''d'', ''13''),
          (''e'', ''245''), (''f'', ''245'')] (1, 1) =
     Inr ([(''a'', ''1''), (''b'', ''2''), (''c'', ''3''), (''d'', []),
           (''e'', ''245''), (''f'', ''245'')], PyFalse, (2, 1)) \<and>
   assign_value [(''a'', ''12''), (''b'', ''12''), (''c'', ''13''), (''d'', ''13''),
           (''e'', ''245''), (''f'', ''245'')] ''a'' ''2'' =
     Inr [(''a'', ''2''), (''b'', ''12''), (''c'', ''13''), (''d'', ''13''),
          (''e'', ''245''), (''f'', ''245'')] \<and>
   search prune_example [(''a'', ''2''), (''b'', ''12''), (''c'', ''13''), (''d'', ''13''),
          (''e'', ''245''), (''f'', ''245'')] (2, 1) =
     Inr ([(''a'', ''2''), (''b'', ''1''), (''c'', ''13''), (''d'', ''13''),
           (''e'', ''45''), (''f'', ''45'')],
          PyState [(''a'', ''2''), (''b'', ''1''), (''c'', ''1''), (''d'', ''3''),
                   (''e'', ''4''), (''f'', ''5'')], (5, 3)) \<and>
   search prune_example (internal_state prune_example) (0, 0) =
     Inr ([(''a'', ''12''), (''b'', ''12''), (''c'', ''13''), (''d'', ''13''),
           (''e'', ''245''), (''f'', ''245'')],
          PyState [(''a'', ''2''), (''b'', ''1''), (''c'', ''1''), (''d'', ''3''),
                   (''e'', ''4''), (''f'', ''5'')], (5, 3)) \<and>
   (\<exists>pre v post new m cm. ''12'' = pre @ v # post \<and>
      tried_in_vain prune_example
        [(''a'', ''12''), (''b'', ''12''), (''c'', ''13''), (''d'', ''13''),
         (''e'', ''245''), (''f'', ''245'')] ''a'' pre (1, 1) cm \<and>
      assign_value [(''a'', ''12''), (''b'', ''12''), (''c'', ''13''), (''d'', ''13''),
         (''e'', ''245''), (''f'', ''245'')] ''a'' [v] = Inr new \<and>
      search prune_example new cm =
        Inr (m, PyState [(''a'', ''2''), (''b'', ''1''), (''c'', ''1''), (''d'', ''3''),
                   (''e'', ''4''), (''f'', ''5'')], (5, 3)))"
proof -
  let ?st1 = "[(''a'', ''12''), (''b'', ''12''), (''c'', ''13''), (''d'', ''13''),
           (''e'', ''245''), (''f'', ''245'')]"
  let ?sol = "[(''a'', ''2''), (''b'', ''1''), (''c'', ''1''), (''d'', ''3''),
                   (''e'', ''4''), (''f'', ''5'')]"
  have h1: "reduce prune_example (internal_state prune_example) (0, 0) =
     Inr (?st1, True, (1, 0))"
    by code_simp
  have h2: "all_solved ?st1 (X_vars prune_example) = Inr False"
    by code_simp
  have h3: "unfilled ?st1 (X_vars prune_example) =
     Inr [(2, ''a''), (2, ''b''), (2, ''c''), (2, ''d''), (3, ''e''), (3, ''f'')]"
    by code_simp
  have h4: "py_min [(2 :: nat, ''a''), (2, ''b''), (2, ''c''), (2, ''d''), (3, ''e''), (3, ''f'')] =
     Inr (2, ''a'')"
    by code_simp
  have h5: "getitem ?st1 ''a'' = Inr ''12''"
    by code_simp
  have b1: "assign_value ?st1 ''a'' ''1'' =
     Inr [(''a'', ''1''), (''b'', ''12''), (''c'', ''13''), (''d'', ''13''),
          (''e'', ''245''), (''f'', ''245'')]"
    by code_simp
  have b2: "search prune_example [(''a'', ''1''), (''b'', ''12''), (''c'', ''13''), (''d'', ''13''),
          (''e'', ''245''), (''f'', ''245'')] (1, 1) =
     Inr ([(''a'', ''1''), (''b'', ''2''), (''c'', ''3''), (''d'', []),
           (''e'', ''245''), (''f'', ''245'')], PyFalse, (2, 1))"
    by code_simp
  have b3: "assign_value ?st1 ''a'' ''2'' =
     Inr [(''a'', ''2''), (''b'', ''12''), (''c'', ''13''), (''d'', ''13''),
          (''e'', ''245''), (''f'', ''245'')]"
    by code_simp
  have b4: "search prune_example [(''a'', ''2''), (''b'', ''12''), (''c'', ''13''), (''d'', ''13''),
          (''e'', ''245''), (''f'', ''245'')] (2, 1) =
     Inr ([(''a'', ''2''), (''b'', ''1''), (''c'', ''13''), (''d'', ''13''),
           (''e'', ''45''), (''f'', ''45'')], PyState ?sol, (5, 3))"
    by code_simp
  have sv: "search_vals prune_example ?st1 ''a'' ''12'' (1, 1) = Inr (PyState ?sol, (5, 3))"
    by code_simp
  note inst = search_branches[OF h1 h2 h3 h4 h5]
  from inst have x: "''a'' \<in> set (X_vars prune_example)"
    by (rule conjunct1)
  note eq = inst[THEN conjunct2, THEN conjunct2, THEN conjunct2, THEN conjunct2,
      THEN conjunct2, THEN conjunct1]
  note last = inst[THEN conjunct2, THEN conjunct2, THEN conjunct2, THEN conjunct2,
      THEN conjunct2, THEN conjunct2, THEN conjunct2, rule_format]
  have s: "search prune_example (internal_state prune_example) (0, 0) =
     Inr (?st1, PyState ?sol, (5, 3))"
  proof -
    have sv': "search_vals prune_example ?st1 ''a'' ''12''
        (fst (1 :: nat, 0 :: nat), Suc (snd (1 :: nat, 0 :: nat))) = Inr (PyState ?sol, (5, 3))"
      using sv by (simp only: fst_conv snd_conv One_nat_def)
    show ?thesis
      by (subst eq) (simp only: sv' sum.case prod.case)
  qed
  from last[OF s, THEN conjunct2]
  have e: "\<exists>pre v post new m cm. ''12'' = pre @ v # post \<and>
          tried_in_vain prune_example ?st1 ''a'' pre (1, 1) cm \<and>
          assign_value ?st1 ''a'' [v] = Inr new \<and>
          search prune_example new cm = Inr (m, PyState ?sol, (5, 3))"
    by (simp only: fst_conv snd_conv attempt.distinct simp_thms One_nat_def[symmetric])
  from h1 h2 h3 h4 h5 x b1 b2 b3 b4 s e show ?thesis
    by (intro conjI)
qed

end
